theory Spec2Isabelle
  imports Main "HOL-Library.Sublist"
begin

section \<open>The line-level diff engine of ddiff (main.go)\<close>

text \<open>
  The development embeds the diff core of \<^verbatim>\<open>main.go\<close>: \<^verbatim>\<open>computeDiff\<close> (the
  dynamic-programming table and the backtracking loop), \<^verbatim>\<open>createHunksFromEdits\<close>
  and \<^verbatim>\<open>createSingleHunk\<close> (the hunk assembler), \<^verbatim>\<open>generateUnifiedDiff\<close>,
  and the output side of \<^verbatim>\<open>compareFiles\<close> (\<^verbatim>\<open>isBinary\<close>, \<^verbatim>\<open>printDiff\<close>,
  \<^verbatim>\<open>printColor\<close>).

  Conventions.
  \<^item> A Go string is a \<open>string\<close> (a list of bytes), a slice is a list.
  \<^item> Loop counters that the source keeps between \<open>0\<close> and a slice length (\<open>i\<close>, \<open>j\<close>
    of \<^verbatim>\<open>computeDiff\<close>, the index into \<open>edits\<close>) are \<open>nat\<close>; every read
    \<open>lines1[i-1]\<close>, \<open>dp[i-1][j]\<close> of \<^verbatim>\<open>computeDiff\<close> sits behind the source's own
    guard \<open>i > 0\<close> (or inside the loop bounds \<open>1..n\<close>), so no read leaves its slice.
  \<^item> The fields of an \<open>Edit\<close> and the context count are Go \<open>int\<close>s, modelled as
    \<open>int\<close>; arithmetic that involves the user-supplied context count wraps around at
    64 bits (\<open>wrap64\<close>), as Go's \<open>int\<close> does on a 64-bit platform. Slice lengths are
    far below \<open>2^63\<close>, so arithmetic on indices alone cannot overflow.
  \<^item> A slice read whose index comes from data (the ranges of an \<open>Edit\<close> in
    \<^verbatim>\<open>createSingleHunk\<close>) is checked: outside the slice the Go runtime panics, and the
    model returns \<open>None\<close>.
\<close>

subsection \<open>Integers\<close>

text \<open>
  Go's \<open>int\<close> on a 64-bit platform: two's complement, and \<open>+\<close>, \<open>-\<close>, \<open>*\<close> wrap around
  silently. \<open>wrap64\<close> brings a mathematical result back into \<open>[-2^63, 2^63)\<close>.
\<close>

definition wrap64 :: "int \<Rightarrow> int" where
  "wrap64 x = (x + 2 ^ 63) mod 2 ^ 64 - 2 ^ 63"

definition add64 :: "int \<Rightarrow> int \<Rightarrow> int" where
  "add64 a b = wrap64 (a + b)"

definition sub64 :: "int \<Rightarrow> int \<Rightarrow> int" where
  "sub64 a b = wrap64 (a - b)"

definition mul64 :: "int \<Rightarrow> int \<Rightarrow> int" where
  "mul64 a b = wrap64 (a * b)"

text \<open>\<^verbatim>\<open>func max(a, b int) int\<close> and \<^verbatim>\<open>func min(a, b int) int\<close> of main.go.\<close>

definition max_go :: "int \<Rightarrow> int \<Rightarrow> int" where
  "max_go a b = (if a > b then a else b)"

definition min_go :: "int \<Rightarrow> int \<Rightarrow> int" where
  "min_go a b = (if a < b then a else b)"

subsection \<open>Edit operations\<close>

record Edit =
  Type :: string
  Start1 :: int
  End1 :: int
  Start2 :: int
  End2 :: int

subsection \<open>computeDiff: the table\<close>

text \<open>
  The body of the nested loop at one cell \<open>(i, j)\<close>, \<open>1 \<le> i \<le> n\<close>, \<open>1 \<le> j \<le> m\<close>:
  \<^verbatim>\<open>if lines1[i-1] == lines2[j-1] { dp[i][j] = dp[i-1][j-1] + 1 }
   else { dp[i][j] = max(dp[i-1][j], dp[i][j-1]) }\<close>
\<close>

definition fillCell :: "string list \<Rightarrow> string list \<Rightarrow> nat \<Rightarrow> nat \<Rightarrow> int list list \<Rightarrow> int list list" where
  "fillCell lines1 lines2 i j dp =
     (if lines1 ! (i - 1) = lines2 ! (j - 1)
      then dp[i := (dp ! i)[j := dp ! (i - 1) ! (j - 1) + 1]]
      else dp[i := (dp ! i)[j := max_go (dp ! (i - 1) ! j) (dp ! i ! (j - 1))]])"

definition fillRow :: "string list \<Rightarrow> string list \<Rightarrow> nat \<Rightarrow> int list list \<Rightarrow> int list list" where
  "fillRow lines1 lines2 i dp = fold (fillCell lines1 lines2 i) [1..<length lines2 + 1] dp"

definition fillTable :: "string list \<Rightarrow> string list \<Rightarrow> int list list" where
  "fillTable lines1 lines2 =
     fold (fillRow lines1 lines2) [1..<length lines1 + 1]
       (replicate (length lines1 + 1) (replicate (length lines2 + 1) 0))"

subsection \<open>computeDiff: backtracking\<close>

text \<open>The three inner loops of the backtracking, each returning the counters it leaves.\<close>

fun equalRun :: "string list \<Rightarrow> string list \<Rightarrow> nat \<Rightarrow> nat \<Rightarrow> nat \<times> nat" where
  "equalRun lines1 lines2 i j =
     (if i > 0 \<and> j > 0 \<and> lines1 ! (i - 1) = lines2 ! (j - 1)
      then equalRun lines1 lines2 (i - 1) (j - 1) else (i, j))"

fun deleteRun :: "int list list \<Rightarrow> nat \<Rightarrow> nat \<Rightarrow> nat" where
  "deleteRun dp i j =
     (if i > 0 \<and> (j = 0 \<or> dp ! (i - 1) ! j \<ge> dp ! i ! (j - 1))
      then deleteRun dp (i - 1) j else i)"

fun insertRun :: "int list list \<Rightarrow> nat \<Rightarrow> nat \<Rightarrow> nat" where
  "insertRun dp i j =
     (if j > 0 \<and> (i = 0 \<or> dp ! (i - 1) ! j < dp ! i ! (j - 1))
      then insertRun dp i (j - 1) else j)"

declare equalRun.simps [simp del] deleteRun.simps [simp del] insertRun.simps [simp del]

lemma equalRun_le: "equalRun lines1 lines2 i j = (i', j') \<Longrightarrow> i' \<le> i \<and> j' \<le> j"
proof (induction lines1 lines2 i j rule: equalRun.induct)
  case (1 lines1 lines2 i j)
  show ?case
  proof (cases "i > 0 \<and> j > 0 \<and> lines1 ! (i - 1) = lines2 ! (j - 1)")
    case True
    with "1.prems" have "equalRun lines1 lines2 (i - 1) (j - 1) = (i', j')"
      by (subst (asm) equalRun.simps) simp
    with "1.IH" True have "i' \<le> i - 1 \<and> j' \<le> j - 1" by blast
    then show ?thesis by linarith
  next
    case False
    with "1.prems" show ?thesis by (subst (asm) equalRun.simps) auto
  qed
qed

lemma equalRun_less:
  assumes "i > 0" "j > 0" "lines1 ! (i - 1) = lines2 ! (j - 1)"
    and "equalRun lines1 lines2 i j = (i', j')"
  shows "i' < i \<and> j' < j"
proof -
  from assms have "equalRun lines1 lines2 (i - 1) (j - 1) = (i', j')"
    by (subst (asm) equalRun.simps) simp
  then have "i' \<le> i - 1 \<and> j' \<le> j - 1" by (rule equalRun_le)
  with assms(1,2) show ?thesis by linarith
qed

lemma deleteRun_le: "deleteRun dp i j \<le> i"
proof (induction dp i j rule: deleteRun.induct)
  case (1 dp i j)
  show ?case
  proof (cases "i > 0 \<and> (j = 0 \<or> dp ! (i - 1) ! j \<ge> dp ! i ! (j - 1))")
    case True
    then have "deleteRun dp i j = deleteRun dp (i - 1) j"
      by (subst deleteRun.simps) simp
    with "1.IH" True show ?thesis by fastforce
  next
    case False
    then show ?thesis by (subst deleteRun.simps) auto
  qed
qed

lemma deleteRun_less:
  assumes "i > 0" "j = 0 \<or> dp ! (i - 1) ! j \<ge> dp ! i ! (j - 1)"
  shows "deleteRun dp i j < i"
proof -
  from assms have "deleteRun dp i j = deleteRun dp (i - 1) j"
    by (subst deleteRun.simps) simp
  moreover have "deleteRun dp (i - 1) j \<le> i - 1" by (rule deleteRun_le)
  ultimately show ?thesis using assms(1) by linarith
qed

lemma insertRun_le: "insertRun dp i j \<le> j"
proof (induction dp i j rule: insertRun.induct)
  case (1 dp i j)
  show ?case
  proof (cases "j > 0 \<and> (i = 0 \<or> dp ! (i - 1) ! j < dp ! i ! (j - 1))")
    case True
    then have "insertRun dp i j = insertRun dp i (j - 1)"
      by (subst insertRun.simps) simp
    with "1.IH" True show ?thesis by fastforce
  next
    case False
    then show ?thesis by (subst insertRun.simps) auto
  qed
qed

lemma insertRun_less:
  assumes "j > 0" "i = 0 \<or> dp ! (i - 1) ! j < dp ! i ! (j - 1)"
  shows "insertRun dp i j < j"
proof -
  from assms have "insertRun dp i j = insertRun dp i (j - 1)"
    by (subst insertRun.simps) simp
  moreover have "insertRun dp i (j - 1) \<le> j - 1" by (rule insertRun_le)
  ultimately show ?thesis using assms(1) by linarith
qed

text \<open>
  The outer loop \<^verbatim>\<open>for i > 0 || j > 0\<close>. Each branch runs its inner loop and prepends
  one \<open>Edit\<close> (\<^verbatim>\<open>edits = append([]Edit{{...}}, edits...)\<close>).
\<close>

function backtrack ::
  "string list \<Rightarrow> string list \<Rightarrow> int list list \<Rightarrow> nat \<Rightarrow> nat \<Rightarrow> Edit list \<Rightarrow> Edit list" where
  "backtrack lines1 lines2 dp i j edits =
     (if i > 0 \<or> j > 0 then
        (if i > 0 \<and> j > 0 \<and> lines1 ! (i - 1) = lines2 ! (j - 1) then
           (let start1 = int i - 1; start2 = int j - 1;
                i' = fst (equalRun lines1 lines2 i j);
                j' = snd (equalRun lines1 lines2 i j)
            in backtrack lines1 lines2 dp i' j'
                 (\<lparr>Type = ''equal'', Start1 = int i', End1 = start1 + 1,
                   Start2 = int j', End2 = start2 + 1\<rparr> # edits))
         else if i > 0 \<and> (j = 0 \<or> dp ! (i - 1) ! j \<ge> dp ! i ! (j - 1)) then
           (let start1 = int i - 1;
                i' = deleteRun dp i j
            in backtrack lines1 lines2 dp i' j
                 (\<lparr>Type = ''delete'', Start1 = int i', End1 = start1 + 1,
                   Start2 = int j, End2 = int j\<rparr> # edits))
         else
           (let start2 = int j - 1;
                j' = insertRun dp i j
            in backtrack lines1 lines2 dp i j'
                 (\<lparr>Type = ''insert'', Start1 = int i, End1 = int i,
                   Start2 = int j', End2 = start2 + 1\<rparr> # edits)))
      else edits)"
  by pat_completeness auto
termination
proof (relation "measure (\<lambda>(lines1, lines2, dp, i, j, edits). i + j)", goal_cases)
  case 1
  show ?case by simp
next
  case (2 lines1 lines2 dp i j edits start1 start2 i' j')
  obtain a b where ab: "equalRun lines1 lines2 i j = (a, b)" by fastforce
  with 2 have "a < i \<and> b < j" by (auto dest: equalRun_less)
  with 2 ab show ?case by simp
next
  case (3 lines1 lines2 dp i j edits start1 i')
  then have "deleteRun dp i j < i" by (auto intro: deleteRun_less)
  with 3 show ?case by simp
next
  case (4 lines1 lines2 dp i j edits start2 j')
  then have "j > 0 \<and> (i = 0 \<or> dp ! (i - 1) ! j < dp ! i ! (j - 1))" by auto
  then have "insertRun dp i j < j" by (auto intro: insertRun_less)
  with 4 show ?case by simp
qed

declare backtrack.simps [simp del]

text \<open>
  One iteration of that loop, as a function on the loop state \<open>(i, j, edits)\<close>: the body of
  \<^verbatim>\<open>for i > 0 || j > 0\<close>, and the identity once the loop condition is false. The states the
  loop of \<^verbatim>\<open>computeDiff\<close> passes through are the iterates of this step from \<open>(n, m, [])\<close>
  (lemmas \<open>backtrack_step\<close> and \<open>backtrack_iterate\<close> below show that \<open>backtrack\<close> is its
  iteration).
\<close>

definition backtrackStep ::
  "string list \<Rightarrow> string list \<Rightarrow> int list list \<Rightarrow> nat \<times> nat \<times> Edit list \<Rightarrow> nat \<times> nat \<times> Edit list" where
  "backtrackStep lines1 lines2 dp s =
     (case s of (i, j, edits) \<Rightarrow>
        if i > 0 \<or> j > 0 then
          (if i > 0 \<and> j > 0 \<and> lines1 ! (i - 1) = lines2 ! (j - 1) then
             (let start1 = int i - 1; start2 = int j - 1;
                  i' = fst (equalRun lines1 lines2 i j);
                  j' = snd (equalRun lines1 lines2 i j)
              in (i', j', \<lparr>Type = ''equal'', Start1 = int i', End1 = start1 + 1,
                           Start2 = int j', End2 = start2 + 1\<rparr> # edits))
           else if i > 0 \<and> (j = 0 \<or> dp ! (i - 1) ! j \<ge> dp ! i ! (j - 1)) then
             (let start1 = int i - 1;
                  i' = deleteRun dp i j
              in (i', j, \<lparr>Type = ''delete'', Start1 = int i', End1 = start1 + 1,
                          Start2 = int j, End2 = int j\<rparr> # edits))
           else
             (let start2 = int j - 1;
                  j' = insertRun dp i j
              in (i, j', \<lparr>Type = ''insert'', Start1 = int i, End1 = int i,
                          Start2 = int j', End2 = start2 + 1\<rparr> # edits)))
        else (i, j, edits))"

definition computeDiff :: "string list \<Rightarrow> string list \<Rightarrow> Edit list" where
  "computeDiff lines1 lines2 =
     backtrack lines1 lines2 (fillTable lines1 lines2) (length lines1) (length lines2) []"

subsection \<open>Formatting\<close>

text \<open>\<^verbatim>\<open>%d\<close> of \<^verbatim>\<open>fmt.Sprintf\<close>: the decimal digits, a minus sign first for a negative number.\<close>

definition digitChar :: "int \<Rightarrow> char" where
  "digitChar d = ''0123456789'' ! nat d"

function digits :: "int \<Rightarrow> string" where
  "digits n = (if n < 10 then [digitChar n] else digits (n div 10) @ [digitChar (n mod 10)])"
  by pat_completeness auto
termination
  by (relation "measure nat") auto

declare digits.simps [simp del]

definition itoa :: "int \<Rightarrow> string" where
  "itoa x = (if x < 0 then CHR ''-'' # digits (- x) else digits x)"

text \<open>\<^verbatim>\<open>fmt.Sprintf("@@ -%d,%d +%d,%d @@", s1, l1, s2, l2)\<close>\<close>

definition hunkHeader :: "int \<Rightarrow> int \<Rightarrow> int \<Rightarrow> int \<Rightarrow> string" where
  "hunkHeader s1 l1 s2 l2 =
     ''@@ -'' @ itoa s1 @ '','' @ itoa l1 @ '' +'' @ itoa s2 @ '','' @ itoa l2 @ '' @@''"

subsection \<open>createSingleHunk\<close>

text \<open>
  \<^verbatim>\<open>for i := a; i < b; i++ { hunk = append(hunk, pre+lines[i]) }\<close>
  A read outside \<open>lines\<close> panics: the result is \<open>None\<close>.
\<close>

function emitRange :: "string \<Rightarrow> string list \<Rightarrow> int \<Rightarrow> int \<Rightarrow> string list \<Rightarrow> string list option" where
  "emitRange pre lines i b hunk =
     (if i < b then
        (if 0 \<le> i \<and> i < int (length lines)
         then emitRange pre lines (i + 1) b (hunk @ [pre @ lines ! nat i])
         else None)
      else Some hunk)"
  by pat_completeness auto
termination
  by (relation "measure (\<lambda>(pre, lines, i, b, hunk). nat (b - i))") auto

declare emitRange.simps [simp del]

text \<open>The \<^verbatim>\<open>switch edit.Type\<close> of the loop over the hunk's edits; it has no default case.\<close>

definition emitEdit :: "string list \<Rightarrow> string list \<Rightarrow> Edit \<Rightarrow> string list \<Rightarrow> string list option" where
  "emitEdit lines1 lines2 edit hunk =
     (if Type edit = ''equal'' then emitRange '' '' lines1 (Start1 edit) (End1 edit) hunk
      else if Type edit = ''delete'' then emitRange ''-'' lines1 (Start1 edit) (End1 edit) hunk
      else if Type edit = ''insert'' then emitRange ''+'' lines2 (Start2 edit) (End2 edit) hunk
      else Some hunk)"

fun emitEdits :: "string list \<Rightarrow> string list \<Rightarrow> Edit list \<Rightarrow> string list \<Rightarrow> string list option" where
  "emitEdits lines1 lines2 [] hunk = Some hunk"
| "emitEdits lines1 lines2 (edit # edits) hunk =
     (case emitEdit lines1 lines2 edit hunk of
        None \<Rightarrow> None
      | Some hunk' \<Rightarrow> emitEdits lines1 lines2 edits hunk')"

definition createSingleHunk :: "string list \<Rightarrow> string list \<Rightarrow> Edit list \<Rightarrow> int \<Rightarrow> string list option" where
  "createSingleHunk lines1 lines2 edits context =
     (if length edits = 0 then Some []
      else
        (let start1 = Start1 (edits ! 0);
             end1 = End1 (edits ! (length edits - 1));
             start2 = Start2 (edits ! 0);
             end2 = End2 (edits ! (length edits - 1));
             contextStart1 = max_go 0 (sub64 start1 context);
             contextEnd1 = min_go (int (length lines1)) (add64 end1 context);
             contextStart2 = max_go 0 (sub64 start2 context);
             contextEnd2 = min_go (int (length lines2)) (add64 end2 context);
             hunk = [hunkHeader (add64 contextStart1 1) (sub64 contextEnd1 contextStart1)
                       (add64 contextStart2 1) (sub64 contextEnd2 contextStart2)]
         in case emitRange '' '' lines1 contextStart1 start1 hunk of
              None \<Rightarrow> None
            | Some hunk1 \<Rightarrow>
                (case emitEdits lines1 lines2 edits hunk1 of
                   None \<Rightarrow> None
                 | Some hunk2 \<Rightarrow> emitRange '' '' lines1 end1 contextEnd1 hunk2)))"

subsection \<open>createHunksFromEdits\<close>

text \<open>\<^verbatim>\<open>for i < len(edits) && edits[i].Type == "equal" { i++ }\<close>\<close>

function skipEqual :: "Edit list \<Rightarrow> nat \<Rightarrow> nat" where
  "skipEqual edits i =
     (if i < length edits \<and> Type (edits ! i) = ''equal'' then skipEqual edits (i + 1) else i)"
  by pat_completeness auto
termination
  by (relation "measure (\<lambda>(edits, i). length edits - i)") auto

text \<open>
  \<^verbatim>\<open>for i < len(edits) && (edits[i].Type != "equal" ||
        (edits[i].End1-edits[i].Start1) < context*2) { i++ }\<close>
\<close>

definition absorbed :: "int \<Rightarrow> Edit \<Rightarrow> bool" where
  "absorbed context edit =
     (Type edit \<noteq> ''equal'' \<or> sub64 (End1 edit) (Start1 edit) < mul64 context 2)"

function extendHunk :: "Edit list \<Rightarrow> int \<Rightarrow> nat \<Rightarrow> nat" where
  "extendHunk edits context i =
     (if i < length edits \<and> absorbed context (edits ! i)
      then extendHunk edits context (i + 1) else i)"
  by pat_completeness auto
termination
  by (relation "measure (\<lambda>(edits, context, i). length edits - i)") auto

declare skipEqual.simps [simp del] extendHunk.simps [simp del]

lemma skipEqual_ge: "i \<le> skipEqual edits i"
proof (induction edits i rule: skipEqual.induct)
  case (1 edits i)
  show ?case
  proof (cases "i < length edits \<and> Type (edits ! i) = ''equal''")
    case True
    with "1.IH" have "i + 1 \<le> skipEqual edits (i + 1)" by simp
    with True show ?thesis by (subst skipEqual.simps) simp
  next
    case False
    then show ?thesis by (subst skipEqual.simps) auto
  qed
qed

lemma skipEqual_stops:
  "skipEqual edits i < length edits \<Longrightarrow> Type (edits ! skipEqual edits i) \<noteq> ''equal''"
proof (induction edits i rule: skipEqual.induct)
  case (1 edits i)
  show ?case
  proof (cases "i < length edits \<and> Type (edits ! i) = ''equal''")
    case True
    then have eq: "skipEqual edits i = skipEqual edits (i + 1)"
      by (subst skipEqual.simps) simp
    with "1.IH" "1.prems" True show ?thesis by simp
  next
    case False
    then have eq: "skipEqual edits i = i" by (subst skipEqual.simps) auto
    with "1.prems" False show ?thesis by simp
  qed
qed

lemma extendHunk_ge: "i \<le> extendHunk edits c i"
proof (induction edits c i rule: extendHunk.induct)
  case (1 edits c i)
  show ?case
  proof (cases "i < length edits \<and> absorbed c (edits ! i)")
    case True
    with "1.IH" have "i + 1 \<le> extendHunk edits c (i + 1)" by simp
    with True show ?thesis by (subst extendHunk.simps) simp
  next
    case False
    then show ?thesis by (subst extendHunk.simps) auto
  qed
qed

lemma extendHunk_greater:
  assumes "i < length edits" "absorbed c (edits ! i)"
  shows "i < extendHunk edits c i"
proof -
  from assms have "extendHunk edits c i = extendHunk edits c (i + 1)"
    by (subst extendHunk.simps) simp
  moreover have "i + 1 \<le> extendHunk edits c (i + 1)" by (rule extendHunk_ge)
  ultimately show ?thesis by linarith
qed

lemma extendHunk_le: "i \<le> length edits \<Longrightarrow> extendHunk edits c i \<le> length edits"
proof (induction edits c i rule: extendHunk.induct)
  case (1 edits c i)
  show ?case
  proof (cases "i < length edits \<and> absorbed c (edits ! i)")
    case True
    then have "extendHunk edits c i = extendHunk edits c (i + 1)"
      by (subst extendHunk.simps) simp
    with "1.IH" True show ?thesis by simp
  next
    case False
    then have "extendHunk edits c i = i" by (subst extendHunk.simps) auto
    with "1.prems" show ?thesis by simp
  qed
qed

text \<open>
  The outer loop of \<^verbatim>\<open>createHunksFromEdits\<close>; \<open>edits[hunkStart:i]\<close> is
  \<open>take (i - hunkStart) (drop hunkStart edits)\<close>.
\<close>

function hunksLoop ::
  "string list \<Rightarrow> string list \<Rightarrow> Edit list \<Rightarrow> int \<Rightarrow> nat \<Rightarrow> string list list \<Rightarrow> string list list option" where
  "hunksLoop lines1 lines2 edits context i hunks =
     (if i < length edits then
        (let i1 = skipEqual edits i in
         if i1 \<ge> length edits then Some hunks
         else
           (let hunkStart = i1;
                i2 = extendHunk edits context i1
            in case createSingleHunk lines1 lines2 (take (i2 - hunkStart) (drop hunkStart edits)) context of
                 None \<Rightarrow> None
               | Some hunk \<Rightarrow>
                   hunksLoop lines1 lines2 edits context i2
                     (if length hunk > 0 then hunks @ [hunk] else hunks)))
      else Some hunks)"
  by pat_completeness auto
termination
proof (relation "measure (\<lambda>(lines1, lines2, edits, context, i, hunks). length edits - i)", goal_cases)
  case 1
  show ?case by simp
next
  case (2 lines1 lines2 edits c i hunks i1 hunkStart i2 hunk)
  then have lt: "i1 < length edits" by simp
  with 2 have "Type (edits ! i1) \<noteq> ''equal''" using skipEqual_stops [of edits i] by simp
  then have "absorbed c (edits ! i1)" by (simp add: absorbed_def)
  with lt have "i1 < extendHunk edits c i1" by (rule extendHunk_greater)
  moreover have "i \<le> i1" using 2 skipEqual_ge [of i edits] by simp
  ultimately show ?case using 2 by simp
qed

declare hunksLoop.simps [simp del]

definition createHunksFromEdits ::
  "string list \<Rightarrow> string list \<Rightarrow> Edit list \<Rightarrow> int \<Rightarrow> string list list option" where
  "createHunksFromEdits lines1 lines2 edits context = hunksLoop lines1 lines2 edits context 0 []"

definition generateHunks :: "string list \<Rightarrow> string list \<Rightarrow> int \<Rightarrow> string list list option" where
  "generateHunks lines1 lines2 context =
     createHunksFromEdits lines1 lines2 (computeDiff lines1 lines2) context"

subsection \<open>generateUnifiedDiff and compareFiles\<close>






definition hasPrefix :: "string \<Rightarrow> string \<Rightarrow> bool" where
  "hasPrefix s p = (take (length p) s = p)"




section \<open>Properties of computeDiff\<close>

subsection \<open>Integer helpers\<close>

lemma wrap64_id: "- (2 ^ 63) \<le> x \<Longrightarrow> x < 2 ^ 63 \<Longrightarrow> wrap64 x = x"
  by (simp add: wrap64_def)

lemma max_go_max: "max_go a b = max a b"
  by (simp add: max_go_def max_def)

lemma min_go_min: "min_go a b = min a b"
  by (simp add: min_go_def min_def)

subsection \<open>The loops of the backtracking, one step at a time\<close>

lemma equalRun_step:
  "i > 0 \<and> j > 0 \<and> lines1 ! (i - 1) = lines2 ! (j - 1) \<Longrightarrow>
     equalRun lines1 lines2 i j = equalRun lines1 lines2 (i - 1) (j - 1)"
  by (subst equalRun.simps) simp

lemma equalRun_stop:
  "\<not> (i > 0 \<and> j > 0 \<and> lines1 ! (i - 1) = lines2 ! (j - 1)) \<Longrightarrow>
     equalRun lines1 lines2 i j = (i, j)"
  by (subst equalRun.simps) auto

lemma deleteRun_step:
  "i > 0 \<and> (j = 0 \<or> dp ! (i - 1) ! j \<ge> dp ! i ! (j - 1)) \<Longrightarrow>
     deleteRun dp i j = deleteRun dp (i - 1) j"
  by (subst deleteRun.simps) simp

lemma deleteRun_stop:
  "\<not> (i > 0 \<and> (j = 0 \<or> dp ! (i - 1) ! j \<ge> dp ! i ! (j - 1))) \<Longrightarrow> deleteRun dp i j = i"
  by (subst deleteRun.simps) auto

lemma insertRun_step:
  "j > 0 \<and> (i = 0 \<or> dp ! (i - 1) ! j < dp ! i ! (j - 1)) \<Longrightarrow>
     insertRun dp i j = insertRun dp i (j - 1)"
  by (subst insertRun.simps) simp

lemma insertRun_stop:
  "\<not> (j > 0 \<and> (i = 0 \<or> dp ! (i - 1) ! j < dp ! i ! (j - 1))) \<Longrightarrow> insertRun dp i j = j"
  by (subst insertRun.simps) auto

lemma backtrack_done: "i = 0 \<and> j = 0 \<Longrightarrow> backtrack lines1 lines2 dp i j edits = edits"
  by (subst backtrack.simps) simp

lemma backtrack_equal:
  "i > 0 \<and> j > 0 \<and> lines1 ! (i - 1) = lines2 ! (j - 1) \<Longrightarrow>
   backtrack lines1 lines2 dp i j edits =
     backtrack lines1 lines2 dp (fst (equalRun lines1 lines2 i j)) (snd (equalRun lines1 lines2 i j))
       (\<lparr>Type = ''equal'', Start1 = int (fst (equalRun lines1 lines2 i j)), End1 = int i,
         Start2 = int (snd (equalRun lines1 lines2 i j)), End2 = int j\<rparr> # edits)"
  by (subst backtrack.simps) (simp add: Let_def)

lemma backtrack_delete:
  "\<not> (i > 0 \<and> j > 0 \<and> lines1 ! (i - 1) = lines2 ! (j - 1)) \<Longrightarrow>
   i > 0 \<and> (j = 0 \<or> dp ! (i - 1) ! j \<ge> dp ! i ! (j - 1)) \<Longrightarrow>
   backtrack lines1 lines2 dp i j edits =
     backtrack lines1 lines2 dp (deleteRun dp i j) j
       (\<lparr>Type = ''delete'', Start1 = int (deleteRun dp i j), End1 = int i,
         Start2 = int j, End2 = int j\<rparr> # edits)"
  by (subst backtrack.simps) (auto simp: Let_def)

lemma backtrack_insert:
  "i > 0 \<or> j > 0 \<Longrightarrow>
   \<not> (i > 0 \<and> j > 0 \<and> lines1 ! (i - 1) = lines2 ! (j - 1)) \<Longrightarrow>
   \<not> (i > 0 \<and> (j = 0 \<or> dp ! (i - 1) ! j \<ge> dp ! i ! (j - 1))) \<Longrightarrow>
   backtrack lines1 lines2 dp i j edits =
     backtrack lines1 lines2 dp i (insertRun dp i j)
       (\<lparr>Type = ''insert'', Start1 = int i, End1 = int i,
         Start2 = int (insertRun dp i j), End2 = int j\<rparr> # edits)"
  by (subst backtrack.simps) (auto simp: Let_def)

text \<open>
  The outer loop run from a state, and the loop as the iteration of its step: running the
  loop from a state gives the same list as running it from any later iterate. The list
  accumulated so far stays as the tail of the result (\<open>backtrack_acc\<close>).
\<close>

definition backtrackFrom ::
  "string list \<Rightarrow> string list \<Rightarrow> int list list \<Rightarrow> nat \<times> nat \<times> Edit list \<Rightarrow> Edit list" where
  "backtrackFrom lines1 lines2 dp s = (case s of (i, j, edits) \<Rightarrow> backtrack lines1 lines2 dp i j edits)"

lemma backtrack_step:
  "backtrackFrom lines1 lines2 dp (backtrackStep lines1 lines2 dp (i, j, edits)) =
     backtrack lines1 lines2 dp i j edits"
  by (subst backtrack.simps) (simp add: backtrackFrom_def backtrackStep_def Let_def backtrack_done)

lemma backtrack_iterate:
  "backtrackFrom lines1 lines2 dp ((backtrackStep lines1 lines2 dp ^^ k) s) =
     backtrackFrom lines1 lines2 dp s"
proof (induction k)
  case 0
  show ?case by simp
next
  case (Suc k)
  obtain i j edits where s: "(backtrackStep lines1 lines2 dp ^^ k) s = (i, j, edits)"
    by (cases "(backtrackStep lines1 lines2 dp ^^ k) s") auto
  have "backtrackFrom lines1 lines2 dp ((backtrackStep lines1 lines2 dp ^^ Suc k) s) =
      backtrackFrom lines1 lines2 dp (backtrackStep lines1 lines2 dp (i, j, edits))"
    by (simp add: s)
  also have "\<dots> = backtrack lines1 lines2 dp i j edits" by (rule backtrack_step)
  also have "\<dots> = backtrackFrom lines1 lines2 dp ((backtrackStep lines1 lines2 dp ^^ k) s)"
    by (simp add: s backtrackFrom_def)
  finally show ?case using Suc.IH by simp
qed

lemma backtrack_acc:
  "backtrack lines1 lines2 dp i j edits = backtrack lines1 lines2 dp i j [] @ edits"
proof (induction "i + j" arbitrary: i j edits rule: less_induct)
  case less
  consider (c_stop) "\<not> (i > 0 \<or> j > 0)"
    | (c_equal) "i > 0 \<and> j > 0 \<and> lines1 ! (i - 1) = lines2 ! (j - 1)"
    | (c_delete) "\<not> (i > 0 \<and> j > 0 \<and> lines1 ! (i - 1) = lines2 ! (j - 1))"
        "i > 0 \<and> (j = 0 \<or> dp ! (i - 1) ! j \<ge> dp ! i ! (j - 1))"
    | (c_insert) "\<not> (i > 0 \<and> j > 0 \<and> lines1 ! (i - 1) = lines2 ! (j - 1))"
        "\<not> (i > 0 \<and> (j = 0 \<or> dp ! (i - 1) ! j \<ge> dp ! i ! (j - 1)))" "i > 0 \<or> j > 0"
    by blast
  then show ?case
  proof cases
    case c_stop
    then show ?thesis by (simp add: backtrack_done)
  next
    case c_equal
    obtain a b where ab: "equalRun lines1 lines2 i j = (a, b)" by fastforce
    with c_equal have lt: "a + b < i + j" by (auto dest: equalRun_less)
    note ih = less [OF lt]
    show ?thesis
      by (simp add: backtrack_equal [OF c_equal] ab ih [of "_ # edits"] ih [of "[_]"])
  next
    case c_delete
    from c_delete(2) have "deleteRun dp i j < i" by (auto intro: deleteRun_less)
    then have lt: "deleteRun dp i j + j < i + j" by simp
    note ih = less [OF lt]
    show ?thesis
      by (simp add: backtrack_delete [OF c_delete] ih [of "_ # edits"] ih [of "[_]"])
  next
    case c_insert
    then have "j > 0 \<and> (i = 0 \<or> dp ! (i - 1) ! j < dp ! i ! (j - 1))" by auto
    then have "insertRun dp i j < j" by (auto intro: insertRun_less)
    then have lt: "i + insertRun dp i j < i + j" by simp
    note ih = less [OF lt]
    show ?thesis
      by (simp add: backtrack_insert [OF c_insert(3,1,2)] ih [of "_ # edits"] ih [of "[_]"])
  qed
qed

lemma equalRun_spec:
  "equalRun lines1 lines2 i j = (i', j') \<Longrightarrow>
     \<exists>d. i = i' + d \<and> j = j' + d \<and> (\<forall>k < d. lines1 ! (i' + k) = lines2 ! (j' + k))"
proof (induction lines1 lines2 i j rule: equalRun.induct)
  case (1 lines1 lines2 i j)
  show ?case
  proof (cases "i > 0 \<and> j > 0 \<and> lines1 ! (i - 1) = lines2 ! (j - 1)")
    case True
    with "1.prems" have run: "equalRun lines1 lines2 (i - 1) (j - 1) = (i', j')"
      by (simp add: equalRun_step)
    from "1.IH" [OF True run] obtain d where d: "i - 1 = i' + d" "j - 1 = j' + d"
      and eq: "\<forall>k < d. lines1 ! (i' + k) = lines2 ! (j' + k)" by blast
    from True d have last: "lines1 ! (i' + d) = lines2 ! (j' + d)" by simp
    have "lines1 ! (i' + k) = lines2 ! (j' + k)" if "k < Suc d" for k
      using that eq last by (cases "k = d") auto
    moreover from True d have "i = i' + Suc d" "j = j' + Suc d" by linarith+
    ultimately show ?thesis by blast
  next
    case False
    with "1.prems" have "(i, j) = (i', j')" by (simp add: equalRun_stop)
    then show ?thesis by simp
  qed
qed

lemma equalRun_same: "equalRun xs xs i i = (0, 0)"
proof (induction i)
  case 0
  show ?case by (simp add: equalRun_stop)
next
  case (Suc i)
  have "equalRun xs xs (Suc i) (Suc i) = equalRun xs xs (Suc i - 1) (Suc i - 1)"
    by (rule equalRun_step) simp
  with Suc show ?case by simp
qed

subsection \<open>Slices\<close>

text \<open>\<open>slice xs a b\<close> is the Go slice expression \<open>xs[a:b]\<close>, the half-open range \<open>[a, b)\<close>.\<close>

definition slice :: "'a list \<Rightarrow> int \<Rightarrow> int \<Rightarrow> 'a list" where
  "slice xs a b = take (nat (b - a)) (drop (nat a) xs)"

lemma slice_nat: "slice xs (int a) (int a + int d) = take d (drop a xs)"
  by (simp add: slice_def)

lemma slice_empty [simp]: "slice xs a a = []"
  by (simp add: slice_def)

lemma slice_full [simp]: "slice xs 0 (int (length xs)) = xs"
  by (simp add: slice_def)

lemma slice_le_empty: "b \<le> a \<Longrightarrow> slice xs a b = []"
  by (simp add: slice_def)

lemma slice_append:
  assumes "0 \<le> a" "a \<le> m" "m \<le> c"
  shows "slice xs a m @ slice xs m c = slice xs a c"
proof -
  have "nat (c - a) = nat (m - a) + nat (c - m)" using assms by linarith
  moreover have "nat m = nat (m - a) + nat a" using assms by linarith
  then have "drop (nat m) xs = drop (nat (m - a)) (drop (nat a) xs)" by simp
  ultimately show ?thesis unfolding slice_def by (simp only: take_add)
qed

lemma slice_nth:
  assumes "0 \<le> a" "0 \<le> k" "k < b - a" "b \<le> int (length xs)"
  shows "slice xs a b ! nat k = xs ! nat (a + k)"
proof -
  have "nat k < nat (b - a)" "nat a + nat k = nat (a + k)" "nat a + nat k \<le> length xs"
    using assms by linarith+
  then show ?thesis unfolding slice_def by simp
qed

lemma slice_Cons:
  assumes "0 \<le> a" "a < b" "a < int (length xs)"
  shows "slice xs a b = xs ! nat a # slice xs (a + 1) b"
proof -
  from assms have n: "nat (b - a) = Suc (nat (b - (a + 1)))" "nat (a + 1) = Suc (nat a)"
    "nat a < length xs" by linarith+
  then have "drop (nat a) xs = xs ! nat a # drop (nat (a + 1)) xs"
    by (simp add: Cons_nth_drop_Suc)
  with n show ?thesis by (simp add: slice_def)
qed

lemma length_slice:
  "0 \<le> a \<Longrightarrow> a \<le> b \<Longrightarrow> b \<le> int (length xs) \<Longrightarrow> int (length (slice xs a b)) = b - a"
  by (simp add: slice_def)

subsection \<open>Well-formed edit lists\<close>

text \<open>
  One edit is well formed over the two sequences when its ranges lie inside them and it has
  the shape of its kind: an Equal covers two non-empty ranges of the same length holding the
  same lines, a Delete a non-empty range of sequence 1 only, an Insert a non-empty range of
  sequence 2 only.
\<close>

definition wfEdit :: "string list \<Rightarrow> string list \<Rightarrow> Edit \<Rightarrow> bool" where
  "wfEdit lines1 lines2 e =
     (0 \<le> Start1 e \<and> Start1 e \<le> End1 e \<and> End1 e \<le> int (length lines1) \<and>
      0 \<le> Start2 e \<and> Start2 e \<le> End2 e \<and> End2 e \<le> int (length lines2) \<and>
      (Type e = ''equal'' \<and> Start1 e < End1 e \<and> End1 e - Start1 e = End2 e - Start2 e \<and>
         slice lines1 (Start1 e) (End1 e) = slice lines2 (Start2 e) (End2 e)
       \<or> Type e = ''delete'' \<and> Start1 e < End1 e \<and> End2 e = Start2 e
       \<or> Type e = ''insert'' \<and> End1 e = Start1 e \<and> Start2 e < End2 e))"

lemma wfEdit_bounds:
  "wfEdit lines1 lines2 e \<Longrightarrow>
     (Type e = ''equal'' \<or> Type e = ''delete'' \<or> Type e = ''insert'') \<and>
     0 \<le> Start1 e \<and> Start1 e \<le> End1 e \<and> End1 e \<le> int (length lines1) \<and>
     0 \<le> Start2 e \<and> Start2 e \<le> End2 e \<and> End2 e \<le> int (length lines2)"
  by (auto simp: wfEdit_def)

lemma wfEdit_equal: "wfEdit lines1 lines2 e \<Longrightarrow> Type e = ''equal'' \<Longrightarrow> End1 e - Start1 e = End2 e - Start2 e"
  by (auto simp: wfEdit_def)

lemma wfEdit_delete: "wfEdit lines1 lines2 e \<Longrightarrow> Type e = ''delete'' \<Longrightarrow> End2 e = Start2 e"
  by (auto simp: wfEdit_def)

lemma wfEdit_insert: "wfEdit lines1 lines2 e \<Longrightarrow> Type e = ''insert'' \<Longrightarrow> End1 e = Start1 e"
  by (auto simp: wfEdit_def)

lemma wfEdit_side1: "wfEdit lines1 lines2 e \<Longrightarrow> Type e \<noteq> ''insert'' \<Longrightarrow> Start1 e < End1 e"
  by (auto simp: wfEdit_def)

lemma wfEdit_side2: "wfEdit lines1 lines2 e \<Longrightarrow> Type e \<noteq> ''delete'' \<Longrightarrow> Start2 e < End2 e"
  by (auto simp: wfEdit_def)

lemma wfEdit_equal_nth:
  assumes "wfEdit lines1 lines2 e" "Type e = ''equal''" "0 \<le> k" "k < End1 e - Start1 e"
  shows "lines1 ! nat (Start1 e + k) = lines2 ! nat (Start2 e + k)"
proof -
  from assms(1,2) have b: "0 \<le> Start1 e" "End1 e \<le> int (length lines1)"
    "0 \<le> Start2 e" "End2 e \<le> int (length lines2)"
    "End1 e - Start1 e = End2 e - Start2 e"
    and eq: "slice lines1 (Start1 e) (End1 e) = slice lines2 (Start2 e) (End2 e)"
    by (auto simp: wfEdit_def)
  have "lines1 ! nat (Start1 e + k) = slice lines1 (Start1 e) (End1 e) ! nat k"
    using b assms(3,4) by (intro slice_nth [symmetric]) simp_all
  also have "\<dots> = slice lines2 (Start2 e) (End2 e) ! nat k" by (simp only: eq)
  also have "\<dots> = lines2 ! nat (Start2 e + k)"
    using b assms(3,4) by (intro slice_nth) simp_all
  finally show ?thesis .
qed

text \<open>
  \<open>chain lines1 lines2 es a b c d\<close>: the edits \<open>es\<close> are well formed and each starts, on
  both sides, where its predecessor ends; the first starts at \<open>(a, b)\<close> and the last ends at
  \<open>(c, d)\<close>.
\<close>

fun chain :: "string list \<Rightarrow> string list \<Rightarrow> Edit list \<Rightarrow> int \<Rightarrow> int \<Rightarrow> int \<Rightarrow> int \<Rightarrow> bool" where
  "chain lines1 lines2 [] a b c d = (a = c \<and> b = d)"
| "chain lines1 lines2 (e # es) a b c d =
     (Start1 e = a \<and> Start2 e = b \<and> wfEdit lines1 lines2 e \<and>
      chain lines1 lines2 es (End1 e) (End2 e) c d)"

lemma chain_append:
  "chain lines1 lines2 (xs @ ys) a b c d \<longleftrightarrow>
     (\<exists>p q. chain lines1 lines2 xs a b p q \<and> chain lines1 lines2 ys p q c d)"
  by (induction xs arbitrary: a b) auto

lemma chain_mono: "chain lines1 lines2 es a b c d \<Longrightarrow> a \<le> c \<and> b \<le> d"
proof (induction es arbitrary: a b)
  case Nil
  then show ?case by simp
next
  case (Cons e es)
  from Cons.prems have "chain lines1 lines2 es (End1 e) (End2 e) c d" by simp
  then have "End1 e \<le> c \<and> End2 e \<le> d" by (rule Cons.IH)
  moreover from Cons.prems have "a \<le> End1 e \<and> b \<le> End2 e" by (simp add: wfEdit_def)
  ultimately show ?case by linarith
qed

lemma chain_nth:
  "chain lines1 lines2 es a b c d \<Longrightarrow> k < length es \<Longrightarrow>
     wfEdit lines1 lines2 (es ! k) \<and> a \<le> Start1 (es ! k) \<and> End1 (es ! k) \<le> c \<and>
     b \<le> Start2 (es ! k) \<and> End2 (es ! k) \<le> d"
proof (induction es arbitrary: a b k)
  case Nil
  then show ?case by simp
next
  case (Cons e es)
  from Cons.prems(1) have e: "Start1 e = a" "Start2 e = b" "wfEdit lines1 lines2 e"
    and rest: "chain lines1 lines2 es (End1 e) (End2 e) c d" by simp_all
  from e have le: "a \<le> End1 e" "b \<le> End2 e" by (simp_all add: wfEdit_def)
  show ?case
  proof (cases k)
    case 0
    with e chain_mono [OF rest] show ?thesis by simp
  next
    case (Suc k')
    with Cons.prems(2) have "k' < length es" by simp
    from Cons.IH [OF rest this] le Suc show ?thesis by simp
  qed
qed

lemma chain_set:
  "chain lines1 lines2 es a b c d \<Longrightarrow> e \<in> set es \<Longrightarrow> wfEdit lines1 lines2 e"
  by (auto simp: in_set_conv_nth dest: chain_nth)

lemma chain_adjacent:
  "chain lines1 lines2 es a b c d \<Longrightarrow> Suc k < length es \<Longrightarrow>
     End1 (es ! k) = Start1 (es ! Suc k) \<and> End2 (es ! k) = Start2 (es ! Suc k)"
proof (induction es arbitrary: a b k)
  case Nil
  then show ?case by simp
next
  case (Cons e es)
  from Cons.prems(1) have rest: "chain lines1 lines2 es (End1 e) (End2 e) c d" by simp
  show ?case
  proof (cases k)
    case 0
    with Cons.prems(2) obtain e' es' where "es = e' # es'" by (cases es) auto
    with rest 0 show ?thesis by simp
  next
    case (Suc k')
    with Cons.prems(2) have "Suc k' < length es" by simp
    from Cons.IH [OF rest this] Suc show ?thesis by simp
  qed
qed

lemma chain_later:
  "chain lines1 lines2 es a b c d \<Longrightarrow> k < k' \<Longrightarrow> k' < length es \<Longrightarrow>
     End1 (es ! k) \<le> Start1 (es ! k') \<and> End2 (es ! k) \<le> Start2 (es ! k')"
proof (induction es arbitrary: a b k k')
  case Nil
  then show ?case by simp
next
  case (Cons e es)
  from Cons.prems(1) have rest: "chain lines1 lines2 es (End1 e) (End2 e) c d" by simp
  from Cons.prems(2) obtain j where j: "k' = Suc j" by (cases k') auto
  with Cons.prems(3) have jlen: "j < length es" by simp
  show ?case
  proof (cases k)
    case 0
    with chain_nth [OF rest jlen] j show ?thesis by simp
  next
    case (Suc k0)
    with Cons.prems(2) j have "k0 < j" by simp
    from Cons.IH [OF rest this jlen] Suc j show ?thesis by simp
  qed
qed

lemma chain_ends:
  "chain lines1 lines2 es a b c d \<Longrightarrow> es \<noteq> [] \<Longrightarrow>
     Start1 (es ! 0) = a \<and> Start2 (es ! 0) = b \<and>
     End1 (es ! (length es - 1)) = c \<and> End2 (es ! (length es - 1)) = d"
proof (induction es arbitrary: a b)
  case Nil
  then show ?case by simp
next
  case (Cons e es)
  from Cons.prems(1) have rest: "chain lines1 lines2 es (End1 e) (End2 e) c d"
    and e: "Start1 e = a" "Start2 e = b" by simp_all
  show ?case
  proof (cases "es = []")
    case True
    with rest e show ?thesis by simp
  next
    case False
    then have "(e # es) ! (length (e # es) - 1) = es ! (length es - 1)"
      by (cases es) simp_all
    with Cons.IH [OF rest False] e show ?thesis by simp
  qed
qed

lemma chain_split:
  assumes "chain lines1 lines2 es a b c d" "k \<le> length es"
  shows "\<exists>p q. chain lines1 lines2 (take k es) a b p q \<and> chain lines1 lines2 (drop k es) p q c d"
proof -
  have "chain lines1 lines2 (take k es @ drop k es) a b c d" using assms(1) by simp
  then show ?thesis by (simp only: chain_append)
qed

lemma chain_group:
  assumes "chain lines1 lines2 es a b c d" "i \<le> j" "j \<le> length es"
  shows "\<exists>p q r s. chain lines1 lines2 (take i es) a b p q \<and>
           chain lines1 lines2 (drop i es) p q c d \<and>
           chain lines1 lines2 (take (j - i) (drop i es)) p q r s \<and>
           chain lines1 lines2 (drop j es) r s c d"
proof -
  from assms have "i \<le> length es" by simp
  from chain_split [OF assms(1) this] obtain p q where
    pq: "chain lines1 lines2 (take i es) a b p q" "chain lines1 lines2 (drop i es) p q c d" by blast
  from assms have "j - i \<le> length (drop i es)" by simp
  from chain_split [OF pq(2) this] obtain r s where
    rs: "chain lines1 lines2 (take (j - i) (drop i es)) p q r s"
    "chain lines1 lines2 (drop (j - i) (drop i es)) r s c d" by blast
  from assms(2) have "drop (j - i) (drop i es) = drop j es" by simp
  with pq rs show ?thesis by metis
qed

lemma chain_drop_start:
  assumes "chain lines1 lines2 (drop k es) p q c d" "k < length es"
  shows "Start1 (es ! k) = p \<and> Start2 (es ! k) = q"
proof -
  from assms(2) have "drop k es = es ! k # drop (Suc k) es" by (simp add: Cons_nth_drop_Suc)
  with assms(1) show ?thesis by simp
qed

lemma all_equal_chain:
  "chain lines1 lines2 xs a b c d \<Longrightarrow> \<forall>e \<in> set xs. Type e = ''equal'' \<Longrightarrow> c - a = d - b"
proof (induction xs arbitrary: a b)
  case Nil
  then show ?case by simp
next
  case (Cons e xs)
  from Cons.prems have e: "Start1 e = a" "Start2 e = b" "wfEdit lines1 lines2 e" "Type e = ''equal''"
    and rest: "chain lines1 lines2 xs (End1 e) (End2 e) c d" "\<forall>e \<in> set xs. Type e = ''equal''"
    by simp_all
  from Cons.IH [OF rest] wfEdit_equal [OF e(3,4)] e(1,2) show ?case by linarith
qed

lemma chain_side1:
  "chain lines1 lines2 es a b c d \<Longrightarrow> 0 \<le> a \<Longrightarrow>
     concat (map (\<lambda>e. slice lines1 (Start1 e) (End1 e))
       (filter (\<lambda>e. Type e = ''equal'' \<or> Type e = ''delete'') es)) = slice lines1 a c"
proof (induction es arbitrary: a b)
  case Nil
  then show ?case by simp
next
  case (Cons e es)
  from Cons.prems(1) have e: "Start1 e = a" "wfEdit lines1 lines2 e"
    and rest: "chain lines1 lines2 es (End1 e) (End2 e) c d" by simp_all
  from e Cons.prems(2) have le: "a \<le> End1 e" "0 \<le> End1 e" by (simp_all add: wfEdit_def)
  note ih = Cons.IH [OF rest le(2)]
  show ?case
  proof (cases "Type e = ''equal'' \<or> Type e = ''delete''")
    case True
    with ih e have "concat (map (\<lambda>e. slice lines1 (Start1 e) (End1 e))
        (filter (\<lambda>e. Type e = ''equal'' \<or> Type e = ''delete'') (e # es)))
      = slice lines1 a (End1 e) @ slice lines1 (End1 e) c" by simp
    also have "\<dots> = slice lines1 a c"
      using Cons.prems(2) le(1) chain_mono [OF rest] by (intro slice_append) simp_all
    finally show ?thesis .
  next
    case False
    with e have "End1 e = a" by (auto simp: wfEdit_def)
    with ih False show ?thesis by simp
  qed
qed

lemma chain_side2:
  "chain lines1 lines2 es a b c d \<Longrightarrow> 0 \<le> b \<Longrightarrow>
     concat (map (\<lambda>e. slice lines2 (Start2 e) (End2 e))
       (filter (\<lambda>e. Type e = ''equal'' \<or> Type e = ''insert'') es)) = slice lines2 b d"
proof (induction es arbitrary: a b)
  case Nil
  then show ?case by simp
next
  case (Cons e es)
  from Cons.prems(1) have e: "Start2 e = b" "wfEdit lines1 lines2 e"
    and rest: "chain lines1 lines2 es (End1 e) (End2 e) c d" by simp_all
  from e Cons.prems(2) have le: "b \<le> End2 e" "0 \<le> End2 e" by (simp_all add: wfEdit_def)
  note ih = Cons.IH [OF rest le(2)]
  show ?case
  proof (cases "Type e = ''equal'' \<or> Type e = ''insert''")
    case True
    with ih e have "concat (map (\<lambda>e. slice lines2 (Start2 e) (End2 e))
        (filter (\<lambda>e. Type e = ''equal'' \<or> Type e = ''insert'') (e # es)))
      = slice lines2 b (End2 e) @ slice lines2 (End2 e) d" by simp
    also have "\<dots> = slice lines2 b d"
      using Cons.prems(2) le(1) chain_mono [OF rest] by (intro slice_append) simp_all
    finally show ?thesis .
  next
    case False
    with e have "End2 e = b" by (auto simp: wfEdit_def)
    with ih False show ?thesis by simp
  qed
qed

subsection \<open>The edit list of computeDiff is a well-formed chain\<close>

lemma equalRun_slices:
  assumes "equalRun lines1 lines2 i j = (i', j')" "i \<le> length lines1" "j \<le> length lines2"
  shows "slice lines1 (int i') (int i) = slice lines2 (int j') (int j)"
proof -
  from equalRun_spec [OF assms(1)] obtain d where d: "i = i' + d" "j = j' + d"
    and eq: "\<forall>k < d. lines1 ! (i' + k) = lines2 ! (j' + k)" by blast
  have "take d (drop i' lines1) = take d (drop j' lines2)"
    using d eq assms(2,3) by (intro nth_equalityI) auto
  with d show ?thesis by (simp add: slice_nat)
qed

lemma backtrack_chain:
  "i \<le> length lines1 \<Longrightarrow> j \<le> length lines2 \<Longrightarrow> chain lines1 lines2 acc (int i) (int j) c d \<Longrightarrow>
     chain lines1 lines2 (backtrack lines1 lines2 dp i j acc) 0 0 c d"
proof (induction "i + j" arbitrary: i j acc rule: less_induct)
  case less
  consider (c_stop) "\<not> (i > 0 \<or> j > 0)"
    | (c_equal) "i > 0 \<and> j > 0 \<and> lines1 ! (i - 1) = lines2 ! (j - 1)"
    | (c_delete) "\<not> (i > 0 \<and> j > 0 \<and> lines1 ! (i - 1) = lines2 ! (j - 1))"
        "i > 0 \<and> (j = 0 \<or> dp ! (i - 1) ! j \<ge> dp ! i ! (j - 1))"
    | (c_insert) "i > 0 \<or> j > 0" "\<not> (i > 0 \<and> j > 0 \<and> lines1 ! (i - 1) = lines2 ! (j - 1))"
        "\<not> (i > 0 \<and> (j = 0 \<or> dp ! (i - 1) ! j \<ge> dp ! i ! (j - 1)))"
    by blast
  then show ?case
  proof cases
    case c_stop
    with less.prems show ?thesis by (simp add: backtrack_done)
  next
    case c_equal
    obtain i' j' where run: "equalRun lines1 lines2 i j = (i', j')" by fastforce
    with c_equal have lt: "i' < i \<and> j' < j" by (auto dest: equalRun_less)
    from equalRun_spec [OF run] have len: "int i - int i' = int j - int j'" by auto
    let ?e = "\<lparr>Type = ''equal'', Start1 = int i', End1 = int i, Start2 = int j', End2 = int j\<rparr>"
    have "wfEdit lines1 lines2 ?e"
      using lt len less.prems(1,2) equalRun_slices [OF run less.prems(1,2)]
      by (simp add: wfEdit_def)
    with less.prems(3) have "chain lines1 lines2 (?e # acc) (int i') (int j') c d" by simp
    moreover have "i' + j' < i + j" "i' \<le> length lines1" "j' \<le> length lines2"
      using lt less.prems(1,2) by linarith+
    ultimately have "chain lines1 lines2 (backtrack lines1 lines2 dp i' j' (?e # acc)) 0 0 c d"
      using less.hyps by blast
    with c_equal run show ?thesis by (simp add: backtrack_equal)
  next
    case c_delete
    define i' where "i' = deleteRun dp i j"
    from c_delete(2) have lt: "i' < i" unfolding i'_def by (auto intro: deleteRun_less)
    let ?e = "\<lparr>Type = ''delete'', Start1 = int i', End1 = int i, Start2 = int j, End2 = int j\<rparr>"
    have "wfEdit lines1 lines2 ?e" using lt less.prems(1,2) by (simp add: wfEdit_def)
    with less.prems(3) have "chain lines1 lines2 (?e # acc) (int i') (int j) c d" by simp
    moreover have "i' + j < i + j" "i' \<le> length lines1"
      using lt less.prems(1) by linarith+
    ultimately have "chain lines1 lines2 (backtrack lines1 lines2 dp i' j (?e # acc)) 0 0 c d"
      using less.hyps less.prems(2) by blast
    with c_delete show ?thesis by (simp add: backtrack_delete i'_def)
  next
    case c_insert
    define j' where "j' = insertRun dp i j"
    from c_insert have "j > 0 \<and> (i = 0 \<or> dp ! (i - 1) ! j < dp ! i ! (j - 1))" by auto
    then have lt: "j' < j" unfolding j'_def by (auto intro: insertRun_less)
    let ?e = "\<lparr>Type = ''insert'', Start1 = int i, End1 = int i, Start2 = int j', End2 = int j\<rparr>"
    have "wfEdit lines1 lines2 ?e" using lt less.prems(1,2) by (simp add: wfEdit_def)
    with less.prems(3) have "chain lines1 lines2 (?e # acc) (int i) (int j') c d" by simp
    moreover have "i + j' < i + j" "j' \<le> length lines2"
      using lt less.prems(2) by linarith+
    ultimately have "chain lines1 lines2 (backtrack lines1 lines2 dp i j' (?e # acc)) 0 0 c d"
      using less.hyps less.prems(1) by blast
    with c_insert show ?thesis by (simp add: backtrack_insert j'_def)
  qed
qed

lemma computeDiff_chain:
  "chain lines1 lines2 (computeDiff lines1 lines2) 0 0 (int (length lines1)) (int (length lines2))"
  unfolding computeDiff_def by (rule backtrack_chain) simp_all

lemma computeDiff_same:
  assumes "xs \<noteq> []"
  shows "computeDiff xs xs =
    [\<lparr>Type = ''equal'', Start1 = 0, End1 = int (length xs), Start2 = 0, End2 = int (length xs)\<rparr>]"
proof -
  from assms have "length xs > 0 \<and> length xs > 0 \<and> xs ! (length xs - 1) = xs ! (length xs - 1)"
    by simp
  from backtrack_equal [OF this] show ?thesis
    by (simp add: computeDiff_def equalRun_same backtrack_done)
qed

subsection \<open>The table holds the lengths of longest common subsequences\<close>

text \<open>
  The length of the longest common subsequence of two lists, as the spec words it: the
  largest length of a list that is a subsequence of both.
\<close>

definition commonSubseqs :: "'a list \<Rightarrow> 'a list \<Rightarrow> 'a list set" where
  "commonSubseqs xs ys = {zs. subseq zs xs \<and> subseq zs ys}"

definition lcsLength :: "'a list \<Rightarrow> 'a list \<Rightarrow> nat" where
  "lcsLength xs ys = Max (length ` commonSubseqs xs ys)"

lemma commonSubseqs_finite: "finite (commonSubseqs xs ys)"
proof -
  have "commonSubseqs xs ys \<subseteq> set (subseqs xs)" by (auto simp: commonSubseqs_def)
  then show ?thesis by (rule finite_subset) simp
qed

lemma commonSubseqs_Nil: "[] \<in> commonSubseqs xs ys"
  by (simp add: commonSubseqs_def)

lemma lcsLength_ge: "zs \<in> commonSubseqs xs ys \<Longrightarrow> length zs \<le> lcsLength xs ys"
  unfolding lcsLength_def using commonSubseqs_finite by (intro Max_ge) auto

lemma lcsLength_attained: "\<exists>zs \<in> commonSubseqs xs ys. length zs = lcsLength xs ys"
proof -
  have "finite (length ` commonSubseqs xs ys)"
    using commonSubseqs_finite [of xs ys] by (rule finite_imageI)
  moreover have "length ` commonSubseqs xs ys \<noteq> {}" using commonSubseqs_Nil by blast
  ultimately have "Max (length ` commonSubseqs xs ys) \<in> length ` commonSubseqs xs ys"
    by (rule Max_in)
  then show ?thesis unfolding lcsLength_def by auto
qed

lemma lcsLength_le:
  assumes "\<And>zs. zs \<in> commonSubseqs xs ys \<Longrightarrow> length zs \<le> k"
  shows "lcsLength xs ys \<le> k"
proof -
  from lcsLength_attained [of xs ys] obtain zs where
    "zs \<in> commonSubseqs xs ys" "length zs = lcsLength xs ys" by blast
  with assms [of zs] show ?thesis by simp
qed

lemma lcsLength_Nil1: "lcsLength [] ys = 0"
  by (intro antisym lcsLength_le) (auto simp: commonSubseqs_def)

lemma lcsLength_Nil2: "lcsLength xs [] = 0"
  by (intro antisym lcsLength_le) (auto simp: commonSubseqs_def)

lemma subseq_snoc:
  "subseq zs (ys @ [y]) \<longleftrightarrow> subseq zs ys \<or> (\<exists>zs'. zs = zs' @ [y] \<and> subseq zs' ys)"
proof
  assume "subseq zs (ys @ [y])"
  then obtain z1 z2 where z: "zs = z1 @ z2" "subseq z1 ys" "subseq z2 [y]"
    by (auto simp: subseq_append_iff)
  from z(3) have "z2 = [] \<or> z2 = [y]"
    by (cases z2) (auto split: if_splits)
  with z show "subseq zs ys \<or> (\<exists>zs'. zs = zs' @ [y] \<and> subseq zs' ys)" by auto
next
  assume "subseq zs ys \<or> (\<exists>zs'. zs = zs' @ [y] \<and> subseq zs' ys)"
  then show "subseq zs (ys @ [y])" by (auto intro: subseq_rev_drop_many)
qed

lemma subseq_butlast: "subseq (zs @ [z]) ys \<Longrightarrow> subseq zs ys"
  by (metis subseq_order.order_trans prefix_imp_subseq prefixI)

lemma lcsLength_snoc_eq: "lcsLength (xs @ [x]) (ys @ [x]) = Suc (lcsLength xs ys)"
proof (rule antisym)
  show "lcsLength (xs @ [x]) (ys @ [x]) \<le> Suc (lcsLength xs ys)"
  proof (rule lcsLength_le)
    fix zs assume "zs \<in> commonSubseqs (xs @ [x]) (ys @ [x])"
    then have a: "subseq zs (xs @ [x])" and b: "subseq zs (ys @ [x])"
      by (simp_all add: commonSubseqs_def)
    show "length zs \<le> Suc (lcsLength xs ys)"
    proof (cases "\<exists>zs'. zs = zs' @ [x]")
      case True
      then obtain zs' where zs: "zs = zs' @ [x]" by blast
      with a b have "subseq zs' xs" "subseq zs' ys" by simp_all
      then have "zs' \<in> commonSubseqs xs ys" by (simp add: commonSubseqs_def)
      from lcsLength_ge [OF this] zs show ?thesis by simp
    next
      case False
      with a b have "subseq zs xs" "subseq zs ys" by (auto simp: subseq_snoc)
      then have "zs \<in> commonSubseqs xs ys" by (simp add: commonSubseqs_def)
      from lcsLength_ge [OF this] show ?thesis by simp
    qed
  qed
next
  from lcsLength_attained [of xs ys] obtain zs where
    zs: "zs \<in> commonSubseqs xs ys" "length zs = lcsLength xs ys" by blast
  then have "zs @ [x] \<in> commonSubseqs (xs @ [x]) (ys @ [x])" by (simp add: commonSubseqs_def)
  from lcsLength_ge [OF this] zs(2) show "Suc (lcsLength xs ys) \<le> lcsLength (xs @ [x]) (ys @ [x])"
    by simp
qed

lemma lcsLength_snoc_neq:
  assumes "x \<noteq> y"
  shows "lcsLength (xs @ [x]) (ys @ [y]) = max (lcsLength xs (ys @ [y])) (lcsLength (xs @ [x]) ys)"
proof (rule antisym)
  show "lcsLength (xs @ [x]) (ys @ [y]) \<le> max (lcsLength xs (ys @ [y])) (lcsLength (xs @ [x]) ys)"
  proof (rule lcsLength_le)
    fix zs assume "zs \<in> commonSubseqs (xs @ [x]) (ys @ [y])"
    then have a: "subseq zs (xs @ [x])" and b: "subseq zs (ys @ [y])"
      by (simp_all add: commonSubseqs_def)
    show "length zs \<le> max (lcsLength xs (ys @ [y])) (lcsLength (xs @ [x]) ys)"
    proof (cases "subseq zs xs")
      case True
      with b have "zs \<in> commonSubseqs xs (ys @ [y])" by (simp add: commonSubseqs_def)
      from lcsLength_ge [OF this] show ?thesis by simp
    next
      case False
      with a obtain zs' where zs: "zs = zs' @ [x]" by (auto simp: subseq_snoc)
      with b assms have "subseq zs ys" by (auto simp: subseq_snoc)
      with a have "zs \<in> commonSubseqs (xs @ [x]) ys" by (simp add: commonSubseqs_def)
      from lcsLength_ge [OF this] show ?thesis by simp
    qed
  qed
next
  have "lcsLength xs (ys @ [y]) \<le> lcsLength (xs @ [x]) (ys @ [y])"
    by (rule lcsLength_le) (auto simp: commonSubseqs_def intro!: lcsLength_ge subseq_rev_drop_many)
  moreover have "lcsLength (xs @ [x]) ys \<le> lcsLength (xs @ [x]) (ys @ [y])"
    by (rule lcsLength_le) (auto simp: commonSubseqs_def intro!: lcsLength_ge subseq_rev_drop_many)
  ultimately show "max (lcsLength xs (ys @ [y])) (lcsLength (xs @ [x]) ys)
      \<le> lcsLength (xs @ [x]) (ys @ [y])" by simp
qed

text \<open>The recurrence of the spec, as a function of the two prefix lengths.\<close>

fun lcsRec :: "string list \<Rightarrow> string list \<Rightarrow> nat \<Rightarrow> nat \<Rightarrow> int" where
  "lcsRec lines1 lines2 0 j = 0"
| "lcsRec lines1 lines2 (Suc i) 0 = 0"
| "lcsRec lines1 lines2 (Suc i) (Suc j) =
     (if lines1 ! i = lines2 ! j then lcsRec lines1 lines2 i j + 1
      else max (lcsRec lines1 lines2 i (Suc j)) (lcsRec lines1 lines2 (Suc i) j))"

lemma lcsRec_lcsLength:
  "i \<le> length lines1 \<Longrightarrow> j \<le> length lines2 \<Longrightarrow>
     lcsRec lines1 lines2 i j = int (lcsLength (take i lines1) (take j lines2))"
proof (induction lines1 lines2 i j rule: lcsRec.induct)
  case (1 lines1 lines2 j)
  show ?case by (simp add: lcsLength_Nil1)
next
  case (2 lines1 lines2 i)
  show ?case by (simp add: lcsLength_Nil2)
next
  case (3 lines1 lines2 i j)
  from "3.prems" have t: "take (Suc i) lines1 = take i lines1 @ [lines1 ! i]"
    "take (Suc j) lines2 = take j lines2 @ [lines2 ! j]"
    by (simp_all add: take_Suc_conv_app_nth)
  show ?case
  proof (cases "lines1 ! i = lines2 ! j")
    case True
    with "3.IH"(1) "3.prems" have "lcsRec lines1 lines2 i j = int (lcsLength (take i lines1) (take j lines2))"
      by simp
    with True show ?thesis by (simp add: t lcsLength_snoc_eq)
  next
    case False
    with "3.IH"(2,3) "3.prems" have
      "lcsRec lines1 lines2 i (Suc j) = int (lcsLength (take i lines1) (take (Suc j) lines2))"
      "lcsRec lines1 lines2 (Suc i) j = int (lcsLength (take (Suc i) lines1) (take j lines2))"
      by simp_all
    note ih = this
    have "lcsLength (take (Suc i) lines1) (take (Suc j) lines2) =
        max (lcsLength (take i lines1) (take (Suc j) lines2))
            (lcsLength (take (Suc i) lines1) (take j lines2))"
      using lcsLength_snoc_neq [OF False, of "take i lines1" "take j lines2"]
      by (simp only: t)
    then have "int (lcsLength (take (Suc i) lines1) (take (Suc j) lines2)) =
        max (int (lcsLength (take i lines1) (take (Suc j) lines2)))
            (int (lcsLength (take (Suc i) lines1) (take j lines2)))"
      by (simp only: of_nat_max)
    with False ih show ?thesis by (simp only: lcsRec.simps if_False)
  qed
qed

text \<open>
  The invariant of the two nested loops: the table has its dimensions, and every cell of
  row 0, of column 0, of a row before \<open>i\<close>, and of row \<open>i\<close> before column \<open>j\<close> holds the
  value of the recurrence.
\<close>

definition filledUpTo :: "string list \<Rightarrow> string list \<Rightarrow> nat \<Rightarrow> nat \<Rightarrow> int list list \<Rightarrow> bool" where
  "filledUpTo lines1 lines2 i j dp \<longleftrightarrow>
     length dp = length lines1 + 1 \<and>
     (\<forall>r \<le> length lines1. length (dp ! r) = length lines2 + 1) \<and>
     (\<forall>r c. r \<le> length lines1 \<and> c \<le> length lines2 \<and>
            (r = 0 \<or> c = 0 \<or> r < i \<or> (r = i \<and> c < j)) \<longrightarrow>
            dp ! r ! c = lcsRec lines1 lines2 r c)"

lemma lcsRec_0: "lcsRec lines1 lines2 r 0 = 0"
  by (cases r) simp_all

lemma fillCell_inv:
  assumes i: "1 \<le> i" "i \<le> length lines1" and j: "1 \<le> j" "j \<le> length lines2"
    and inv: "filledUpTo lines1 lines2 i j dp"
  shows "filledUpTo lines1 lines2 i (Suc j) (fillCell lines1 lines2 i j dp)"
proof -
  from i j obtain i0 j0 where ij: "i = Suc i0" "j = Suc j0"
    by (cases i; cases j) auto
  from inv have len: "length dp = length lines1 + 1"
    and rows: "\<forall>r \<le> length lines1. length (dp ! r) = length lines2 + 1"
    and cells: "\<And>r c. r \<le> length lines1 \<Longrightarrow> c \<le> length lines2 \<Longrightarrow>
        r = 0 \<or> c = 0 \<or> r < i \<or> (r = i \<and> c < j) \<Longrightarrow> dp ! r ! c = lcsRec lines1 lines2 r c"
    unfolding filledUpTo_def by blast+
  define v where "v = (if lines1 ! (i - 1) = lines2 ! (j - 1) then dp ! (i - 1) ! (j - 1) + 1
      else max_go (dp ! (i - 1) ! j) (dp ! i ! (j - 1)))"
  have new: "fillCell lines1 lines2 i j dp = dp[i := (dp ! i)[j := v]]"
    by (simp add: fillCell_def v_def)
  have d1: "dp ! i0 ! j0 = lcsRec lines1 lines2 i0 j0" using i j ij by (intro cells) simp_all
  have d2: "dp ! i0 ! j = lcsRec lines1 lines2 i0 j" using i j ij by (intro cells) simp_all
  have d3: "dp ! i ! j0 = lcsRec lines1 lines2 i j0" using i j ij by (intro cells) simp_all
  have v: "v = lcsRec lines1 lines2 i j"
    using d1 d2 d3 by (simp add: v_def ij max_go_max)
  have ilt: "i < length dp" using i len by simp
  from rows i have jlt: "j < length (dp ! i)" using j by simp
  have l1: "length (dp[i := (dp ! i)[j := v]]) = length lines1 + 1" using len by simp
  have l2: "\<forall>r \<le> length lines1. length (dp[i := (dp ! i)[j := v]] ! r) = length lines2 + 1"
  proof (intro allI impI)
    fix r assume r: "r \<le> length lines1"
    show "length (dp[i := (dp ! i)[j := v]] ! r) = length lines2 + 1"
    proof (cases "r = i")
      case True
      with ilt rows r show ?thesis by simp
    next
      case False
      with rows r show ?thesis by simp
    qed
  qed
  have l3: "dp[i := (dp ! i)[j := v]] ! r ! c = lcsRec lines1 lines2 r c"
    if "r \<le> length lines1 \<and> c \<le> length lines2 \<and> (r = 0 \<or> c = 0 \<or> r < i \<or> (r = i \<and> c < Suc j))"
    for r c
  proof (cases "r = i")
    case True
    show ?thesis
    proof (cases "c = j")
      case True
      with \<open>r = i\<close> ilt jlt v show ?thesis by simp
    next
      case False
      with \<open>r = i\<close> that have "dp ! r ! c = lcsRec lines1 lines2 r c" by (intro cells) auto
      with \<open>r = i\<close> False ilt show ?thesis by simp
    qed
  next
    case False
    with that have "dp ! r ! c = lcsRec lines1 lines2 r c" by (intro cells) auto
    with False show ?thesis by simp
  qed
  from l1 l2 l3 show ?thesis unfolding new filledUpTo_def by blast
qed

lemma fillRow_inv_upto:
  assumes i: "1 \<le> i" "i \<le> length lines1" and inv: "filledUpTo lines1 lines2 i 1 dp"
  shows "k \<le> length lines2 \<Longrightarrow>
     filledUpTo lines1 lines2 i (Suc k) (fold (fillCell lines1 lines2 i) [1..<Suc k] dp)"
proof (induction k)
  case 0
  with inv show ?case by simp
next
  case (Suc k)
  then have ih: "filledUpTo lines1 lines2 i (Suc k) (fold (fillCell lines1 lines2 i) [1..<Suc k] dp)"
    by simp
  have "[1..<Suc (Suc k)] = [1..<Suc k] @ [Suc k]" by simp
  then have "fold (fillCell lines1 lines2 i) [1..<Suc (Suc k)] dp =
      fillCell lines1 lines2 i (Suc k) (fold (fillCell lines1 lines2 i) [1..<Suc k] dp)"
    by (simp only: fold_append fold_simps comp_apply id_apply)
  moreover have "filledUpTo lines1 lines2 i (Suc (Suc k))
      (fillCell lines1 lines2 i (Suc k) (fold (fillCell lines1 lines2 i) [1..<Suc k] dp))"
    using i Suc.prems ih by (intro fillCell_inv) simp_all
  ultimately show ?case by simp
qed

lemma fillRow_inv:
  assumes "1 \<le> i" "i \<le> length lines1" "filledUpTo lines1 lines2 i 1 dp"
  shows "filledUpTo lines1 lines2 (Suc i) 1 (fillRow lines1 lines2 i dp)"
proof -
  let ?dp = "fillRow lines1 lines2 i dp"
  from fillRow_inv_upto [OF assms, of "length lines2"]
  have "filledUpTo lines1 lines2 i (Suc (length lines2)) ?dp"
    by (simp add: fillRow_def)
  then have len: "length ?dp = length lines1 + 1"
    and rows: "\<forall>r \<le> length lines1. length (?dp ! r) = length lines2 + 1"
    and cells: "\<And>r c. r \<le> length lines1 \<Longrightarrow> c \<le> length lines2 \<Longrightarrow>
        r = 0 \<or> c = 0 \<or> r < i \<or> (r = i \<and> c < Suc (length lines2)) \<Longrightarrow>
        ?dp ! r ! c = lcsRec lines1 lines2 r c"
    unfolding filledUpTo_def by blast+
  have "?dp ! r ! c = lcsRec lines1 lines2 r c"
    if "r \<le> length lines1 \<and> c \<le> length lines2 \<and> (r = 0 \<or> c = 0 \<or> r < Suc i \<or> (r = Suc i \<and> c < 1))"
    for r c
  proof -
    from that have "r = 0 \<or> c = 0 \<or> r < i \<or> (r = i \<and> c < Suc (length lines2))" by linarith
    with that show ?thesis by (intro cells) simp_all
  qed
  with len rows show ?thesis unfolding filledUpTo_def by blast
qed

lemma table_init:
  "r \<le> n \<Longrightarrow> c \<le> m \<Longrightarrow> replicate (n + 1) (replicate (m + 1) (0::int)) ! r ! c = 0"
  "r \<le> n \<Longrightarrow> length (replicate (n + 1) (replicate (m + 1) (0::int)) ! r) = m + 1"
  by (simp_all del: replicate.simps add: nth_replicate)

lemma fillTable_inv_upto:
  "k \<le> length lines1 \<Longrightarrow>
     filledUpTo lines1 lines2 (Suc k) 1
       (fold (fillRow lines1 lines2) [1..<Suc k]
          (replicate (length lines1 + 1) (replicate (length lines2 + 1) 0)))"
proof (induction k)
  case 0
  let ?dp0 = "replicate (length lines1 + 1) (replicate (length lines2 + 1) (0::int))"
  have "?dp0 ! r ! c = lcsRec lines1 lines2 r c"
    if "r \<le> length lines1 \<and> c \<le> length lines2 \<and> (r = 0 \<or> c = 0 \<or> r < Suc 0 \<or> (r = Suc 0 \<and> c < 1))"
    for r c
  proof -
    from that have "r = 0 \<or> c = 0" by linarith
    then have "lcsRec lines1 lines2 r c = 0" by (auto simp: lcsRec_0)
    with that table_init(1) [of r "length lines1" c "length lines2"] show ?thesis by simp
  qed
  moreover have "length ?dp0 = length lines1 + 1" by simp
  moreover have "\<forall>r \<le> length lines1. length (?dp0 ! r) = length lines2 + 1"
    using table_init(2) by blast
  ultimately have "filledUpTo lines1 lines2 (Suc 0) 1 ?dp0" unfolding filledUpTo_def by blast
  then show ?case by simp
next
  case (Suc k)
  let ?dp0 = "replicate (length lines1 + 1) (replicate (length lines2 + 1) (0::int))"
  from Suc have ih: "filledUpTo lines1 lines2 (Suc k) 1 (fold (fillRow lines1 lines2) [1..<Suc k] ?dp0)"
    by simp
  have "[1..<Suc (Suc k)] = [1..<Suc k] @ [Suc k]" by simp
  then have "fold (fillRow lines1 lines2) [1..<Suc (Suc k)] ?dp0 =
      fillRow lines1 lines2 (Suc k) (fold (fillRow lines1 lines2) [1..<Suc k] ?dp0)"
    by (simp only: fold_append fold_simps comp_apply id_apply)
  moreover have "filledUpTo lines1 lines2 (Suc (Suc k)) 1
      (fillRow lines1 lines2 (Suc k) (fold (fillRow lines1 lines2) [1..<Suc k] ?dp0))"
    using Suc.prems ih by (intro fillRow_inv) simp_all
  ultimately show ?case by simp
qed

lemma fillTable_dims:
  "length (fillTable lines1 lines2) = length lines1 + 1 \<and>
   (\<forall>r \<le> length lines1. length (fillTable lines1 lines2 ! r) = length lines2 + 1)"
proof -
  from fillTable_inv_upto [of "length lines1" lines1 lines2]
  have "filledUpTo lines1 lines2 (Suc (length lines1)) 1 (fillTable lines1 lines2)"
    by (simp add: fillTable_def)
  then show ?thesis unfolding filledUpTo_def by blast
qed

lemma fillTable_lcsRec:
  assumes "i \<le> length lines1" "j \<le> length lines2"
  shows "fillTable lines1 lines2 ! i ! j = lcsRec lines1 lines2 i j"
proof -
  from fillTable_inv_upto [of "length lines1" lines1 lines2]
  have "filledUpTo lines1 lines2 (Suc (length lines1)) 1 (fillTable lines1 lines2)"
    by (simp add: fillTable_def)
  with assms show ?thesis unfolding filledUpTo_def by auto
qed

lemma fillTable_lcs:
  assumes "i \<le> length lines1" "j \<le> length lines2"
  shows "fillTable lines1 lines2 ! i ! j = int (lcsLength (take i lines1) (take j lines2))"
  using assms by (simp add: fillTable_lcsRec lcsRec_lcsLength)

text \<open>The number of lines of sequence 1 under Delete operations, and of sequence 2 under Insert operations.\<close>

definition deletedLines :: "Edit list \<Rightarrow> int" where
  "deletedLines edits = sum_list (map (\<lambda>e. End1 e - Start1 e) (filter (\<lambda>e. Type e = ''delete'') edits))"

definition insertedLines :: "Edit list \<Rightarrow> int" where
  "insertedLines edits = sum_list (map (\<lambda>e. End2 e - Start2 e) (filter (\<lambda>e. Type e = ''insert'') edits))"

section \<open>Properties of the hunk assembler\<close>

subsection \<open>One hunk\<close>

lemma emitRange_step:
  "i < b \<Longrightarrow> 0 \<le> i \<Longrightarrow> i < int (length lines) \<Longrightarrow>
     emitRange pre lines i b hunk = emitRange pre lines (i + 1) b (hunk @ [pre @ lines ! nat i])"
  by (subst emitRange.simps) simp

lemma emitRange_stop: "b \<le> i \<Longrightarrow> emitRange pre lines i b hunk = Some hunk"
  by (subst emitRange.simps) simp

lemma emitRange_panic:
  "i < b \<Longrightarrow> i < 0 \<or> int (length lines) \<le> i \<Longrightarrow> emitRange pre lines i b hunk = None"
  by (subst emitRange.simps) auto

lemma emitRange_ok:
  "0 \<le> a \<Longrightarrow> b \<le> int (length lines) \<Longrightarrow>
     emitRange pre lines a b hunk = Some (hunk @ map (\<lambda>l. pre @ l) (slice lines a b))"
proof (induction pre lines a b hunk rule: emitRange.induct)
  case (1 pre lines i b hunk)
  show ?case
  proof (cases "i < b")
    case True
    with "1.prems" have lt: "i < int (length lines)" by linarith
    from True "1.prems" lt have "emitRange pre lines i b hunk
        = emitRange pre lines (i + 1) b (hunk @ [pre @ lines ! nat i])"
      by (intro emitRange_step)
    also have "\<dots> = Some ((hunk @ [pre @ lines ! nat i]) @ map (\<lambda>l. pre @ l) (slice lines (i + 1) b))"
      using True "1.prems" lt by (intro "1.IH") simp_all
    also have "\<dots> = Some (hunk @ map (\<lambda>l. pre @ l) (slice lines i b))"
      using slice_Cons [OF "1.prems"(1) True lt] by simp
    finally show ?thesis .
  next
    case False
    then show ?thesis by (simp add: emitRange_stop slice_le_empty)
  qed
qed

text \<open>The lines one edit contributes to a hunk.\<close>

definition editLines :: "string list \<Rightarrow> string list \<Rightarrow> Edit \<Rightarrow> string list" where
  "editLines lines1 lines2 edit =
     (if Type edit = ''equal'' then map (\<lambda>l. '' '' @ l) (slice lines1 (Start1 edit) (End1 edit))
      else if Type edit = ''delete'' then map (\<lambda>l. ''-'' @ l) (slice lines1 (Start1 edit) (End1 edit))
      else if Type edit = ''insert'' then map (\<lambda>l. ''+'' @ l) (slice lines2 (Start2 edit) (End2 edit))
      else [])"

lemma emitEdit_ok:
  "wfEdit lines1 lines2 e \<Longrightarrow> emitEdit lines1 lines2 e hunk = Some (hunk @ editLines lines1 lines2 e)"
  unfolding emitEdit_def editLines_def
  using wfEdit_bounds [of lines1 lines2 e] by (simp add: emitRange_ok)

lemma emitEdits_ok:
  "\<forall>e \<in> set es. wfEdit lines1 lines2 e \<Longrightarrow>
     emitEdits lines1 lines2 es hunk = Some (hunk @ concat (map (editLines lines1 lines2) es))"
  by (induction es arbitrary: hunk) (simp_all add: emitEdit_ok)

lemma createSingleHunk_ok:
  assumes "es \<noteq> []" "chain lines1 lines2 es a1 a2 b1 b2"
  shows "createSingleHunk lines1 lines2 es context =
     Some (hunkHeader (add64 (max_go 0 (sub64 a1 context)) 1)
             (sub64 (min_go (int (length lines1)) (add64 b1 context)) (max_go 0 (sub64 a1 context)))
             (add64 (max_go 0 (sub64 a2 context)) 1)
             (sub64 (min_go (int (length lines2)) (add64 b2 context)) (max_go 0 (sub64 a2 context)))
           # map (\<lambda>l. '' '' @ l) (slice lines1 (max_go 0 (sub64 a1 context)) a1)
           @ concat (map (editLines lines1 lines2) es)
           @ map (\<lambda>l. '' '' @ l) (slice lines1 b1 (min_go (int (length lines1)) (add64 b1 context))))"
proof -
  let ?H = "hunkHeader (add64 (max_go 0 (sub64 a1 context)) 1)
             (sub64 (min_go (int (length lines1)) (add64 b1 context)) (max_go 0 (sub64 a1 context)))
             (add64 (max_go 0 (sub64 a2 context)) 1)
             (sub64 (min_go (int (length lines2)) (add64 b2 context)) (max_go 0 (sub64 a2 context)))"
  let ?pre = "map (\<lambda>l. '' '' @ l) (slice lines1 (max_go 0 (sub64 a1 context)) a1)"
  let ?mid = "concat (map (editLines lines1 lines2) es)"
  let ?post = "map (\<lambda>l. '' '' @ l) (slice lines1 b1 (min_go (int (length lines1)) (add64 b1 context)))"
  from chain_ends [OF assms(2,1)] have ends: "Start1 (es ! 0) = a1" "Start2 (es ! 0) = a2"
    "End1 (es ! (length es - 1)) = b1" "End2 (es ! (length es - 1)) = b2" by blast+
  have wf: "\<forall>e \<in> set es. wfEdit lines1 lines2 e" using assms(2) chain_set by blast
  from assms(1) have "0 < length es" by simp
  from chain_nth [OF assms(2) this] ends(1) have a1: "a1 \<le> int (length lines1)"
    by (auto dest: wfEdit_bounds)
  from assms(1) have "length es - 1 < length es" by simp
  from chain_nth [OF assms(2) this] ends(3) have b1: "0 \<le> b1"
    by (auto dest: wfEdit_bounds)
  have lead: "0 \<le> max_go 0 (sub64 a1 context)" by (simp add: max_go_def)
  have trail: "min_go (int (length lines1)) (add64 b1 context) \<le> int (length lines1)"
    by (simp add: min_go_def)
  have r1: "emitRange '' '' lines1 (max_go 0 (sub64 a1 context)) a1 [?H] = Some ([?H] @ ?pre)"
    using lead a1 by (rule emitRange_ok)
  have r2: "emitEdits lines1 lines2 es ([?H] @ ?pre) = Some (([?H] @ ?pre) @ ?mid)"
    using wf by (rule emitEdits_ok)
  have r3: "emitRange '' '' lines1 b1 (min_go (int (length lines1)) (add64 b1 context))
      (([?H] @ ?pre) @ ?mid) = Some ((([?H] @ ?pre) @ ?mid) @ ?post)"
    using b1 trail by (rule emitRange_ok)
  from assms(1) have ne: "(length es = 0) = False" by simp
  show ?thesis
    by (simp only: createSingleHunk_def Let_def ne if_False ends r1 r2 r3 option.case) simp
qed

subsection \<open>The loop over the edits\<close>

lemma skipEqual_step:
  "i < length edits \<and> Type (edits ! i) = ''equal'' \<Longrightarrow> skipEqual edits i = skipEqual edits (i + 1)"
  by (subst skipEqual.simps) simp

lemma skipEqual_stop:
  "\<not> (i < length edits \<and> Type (edits ! i) = ''equal'') \<Longrightarrow> skipEqual edits i = i"
  by (subst skipEqual.simps) auto

lemma extendHunk_step:
  "i < length edits \<and> absorbed context (edits ! i) \<Longrightarrow>
     extendHunk edits context i = extendHunk edits context (i + 1)"
  by (subst extendHunk.simps) simp

lemma extendHunk_stop:
  "\<not> (i < length edits \<and> absorbed context (edits ! i)) \<Longrightarrow> extendHunk edits context i = i"
  by (subst extendHunk.simps) auto

lemma skipEqual_spec:
  "i \<le> length es \<Longrightarrow>
     i \<le> skipEqual es i \<and> skipEqual es i \<le> length es \<and>
     (\<forall>k. i \<le> k \<and> k < skipEqual es i \<longrightarrow> Type (es ! k) = ''equal'') \<and>
     (skipEqual es i < length es \<longrightarrow> Type (es ! skipEqual es i) \<noteq> ''equal'')"
proof (induction es i rule: skipEqual.induct)
  case (1 es i)
  show ?case
  proof (cases "i < length es \<and> Type (es ! i) = ''equal''")
    case True
    then have eq: "skipEqual es i = skipEqual es (i + 1)" by (rule skipEqual_step)
    from True have "i + 1 \<le> length es" by simp
    from "1.IH" [OF True this] have ih: "i + 1 \<le> skipEqual es (i + 1)"
      "skipEqual es (i + 1) \<le> length es"
      "\<forall>k. i + 1 \<le> k \<and> k < skipEqual es (i + 1) \<longrightarrow> Type (es ! k) = ''equal''"
      "skipEqual es (i + 1) < length es \<longrightarrow> Type (es ! skipEqual es (i + 1)) \<noteq> ''equal''"
      by blast+
    have "Type (es ! k) = ''equal''" if "i \<le> k \<and> k < skipEqual es (i + 1)" for k
      using that ih(3) True by (cases "k = i") auto
    with ih show ?thesis unfolding eq by auto
  next
    case False
    then have "skipEqual es i = i" by (rule skipEqual_stop)
    with False "1.prems" show ?thesis by auto
  qed
qed

lemma extendHunk_spec:
  "i \<le> length es \<Longrightarrow>
     i \<le> extendHunk es c i \<and> extendHunk es c i \<le> length es \<and>
     (\<forall>k. i \<le> k \<and> k < extendHunk es c i \<longrightarrow> absorbed c (es ! k)) \<and>
     (extendHunk es c i < length es \<longrightarrow> \<not> absorbed c (es ! extendHunk es c i))"
proof (induction es c i rule: extendHunk.induct)
  case (1 es c i)
  show ?case
  proof (cases "i < length es \<and> absorbed c (es ! i)")
    case True
    then have eq: "extendHunk es c i = extendHunk es c (i + 1)" by (rule extendHunk_step)
    from True have "i + 1 \<le> length es" by simp
    from "1.IH" [OF True this] have ih: "i + 1 \<le> extendHunk es c (i + 1)"
      "extendHunk es c (i + 1) \<le> length es"
      "\<forall>k. i + 1 \<le> k \<and> k < extendHunk es c (i + 1) \<longrightarrow> absorbed c (es ! k)"
      "extendHunk es c (i + 1) < length es \<longrightarrow> \<not> absorbed c (es ! extendHunk es c (i + 1))"
      by blast+
    have "absorbed c (es ! k)" if "i \<le> k \<and> k < extendHunk es c (i + 1)" for k
      using that ih(3) True by (cases "k = i") auto
    with ih show ?thesis unfolding eq by auto
  next
    case False
    then have "extendHunk es c i = i" by (rule extendHunk_stop)
    with False "1.prems" show ?thesis by auto
  qed
qed

lemma hunksLoop_stop: "\<not> i < length es \<Longrightarrow> hunksLoop lines1 lines2 es c i hunks = Some hunks"
  by (subst hunksLoop.simps) simp

lemma hunksLoop_skip_end:
  "i < length es \<Longrightarrow> length es \<le> skipEqual es i \<Longrightarrow>
     hunksLoop lines1 lines2 es c i hunks = Some hunks"
  by (subst hunksLoop.simps) simp

lemma hunksLoop_step:
  "i < length es \<Longrightarrow> skipEqual es i < length es \<Longrightarrow>
     hunksLoop lines1 lines2 es c i hunks =
       (case createSingleHunk lines1 lines2
               (take (extendHunk es c (skipEqual es i) - skipEqual es i) (drop (skipEqual es i) es)) c of
          None \<Rightarrow> None
        | Some hunk \<Rightarrow>
            hunksLoop lines1 lines2 es c (extendHunk es c (skipEqual es i))
              (if length hunk > 0 then hunks @ [hunk] else hunks))"
  by (subst hunksLoop.simps) (simp add: Let_def)

lemma hunksLoop_single_equal:
  "Type e = ''equal'' \<Longrightarrow> createHunksFromEdits lines1 lines2 [e] context = Some []"
proof -
  assume e: "Type e = ''equal''"
  then have "skipEqual [e] 0 = skipEqual [e] (0 + 1)" by (intro skipEqual_step) simp
  also have "\<dots> = 1" by (simp add: skipEqual_stop)
  finally show ?thesis unfolding createHunksFromEdits_def
    by (subst hunksLoop.simps) simp
qed

lemma hunksLoop_single_change:
  assumes "Type e \<noteq> ''equal''"
  shows "hunksLoop lines1 lines2 [e] context 0 [] =
     (case createSingleHunk lines1 lines2 [e] context of
        None \<Rightarrow> None
      | Some hunk \<Rightarrow> Some (if length hunk > 0 then [hunk] else []))"
proof -
  from assms have s: "skipEqual [e] 0 = 0" by (simp add: skipEqual_stop)
  from assms have "absorbed context ([e] ! 0)" by (simp add: absorbed_def)
  then have "extendHunk [e] context 0 = extendHunk [e] context (0 + 1)"
    by (intro extendHunk_step) simp
  also have "\<dots> = 1" by (simp add: extendHunk_stop)
  finally have x: "extendHunk [e] context 0 = 1" .
  from s x show ?thesis
    by (simp add: hunksLoop_step hunksLoop_stop split: option.splits)
qed


subsection \<open>Whole diffs\<close>





lemma itoa_0: "itoa 0 = ''0''" by code_simp

lemma itoa_1: "itoa 1 = ''1''" by code_simp

lemma itoa_2: "itoa 2 = ''2''" by code_simp

lemma computeDiff_empty_ab:
  "computeDiff [] [''a'', ''b''] = [\<lparr>Type = ''insert'', Start1 = 0, End1 = 0, Start2 = 0, End2 = 2\<rparr>]"
  by code_simp

text \<open>
  Near the top of the 64-bit range the sum \<open>end2 + context\<close> wraps around, and the header's
  second length with it.
\<close>

lemma empty_against_two_lines_overflow:
  "generateHunks [] [''a'', ''b''] 9223372036854775807 =
     Some [[''@@ -1,0 +1,-9223372036854775807 @@'', ''+a'', ''+b'']]"
  by code_simp

subsection \<open>Header lengths against body lines\<close>

text \<open>Counting the lines of a hunk body by their prefix.\<close>

definition side1Lines :: "string list \<Rightarrow> string list" where
  "side1Lines body = filter (\<lambda>l. hasPrefix l '' '' \<or> hasPrefix l ''-'') body"

definition side2Lines :: "string list \<Rightarrow> string list" where
  "side2Lines body = filter (\<lambda>l. hasPrefix l '' '' \<or> hasPrefix l ''+'') body"

lemma sideLines_append:
  "side1Lines (xs @ ys) = side1Lines xs @ side1Lines ys"
  "side2Lines (xs @ ys) = side2Lines xs @ side2Lines ys"
  by (simp_all add: side1Lines_def side2Lines_def)

lemma append_single: "(@) [c] = (#) c"
  by (rule ext) simp

lemma sideLines_space:
  "side1Lines (map ((#) CHR '' '') xs) = map ((#) CHR '' '') xs"
  "side2Lines (map ((#) CHR '' '') xs) = map ((#) CHR '' '') xs"
  by (simp_all add: side1Lines_def side2Lines_def hasPrefix_def)

lemma sideLines_minus:
  "side1Lines (map ((#) CHR ''-'') xs) = map ((#) CHR ''-'') xs"
  "side2Lines (map ((#) CHR ''-'') xs) = []"
  by (simp_all add: side1Lines_def side2Lines_def hasPrefix_def)

lemma sideLines_plus:
  "side1Lines (map ((#) CHR ''+'') xs) = []"
  "side2Lines (map ((#) CHR ''+'') xs) = map ((#) CHR ''+'') xs"
  by (simp_all add: side1Lines_def side2Lines_def hasPrefix_def)

lemma editLines_count:
  assumes "wfEdit lines1 lines2 e"
  shows "int (length (side1Lines (editLines lines1 lines2 e))) = End1 e - Start1 e"
    and "int (length (side2Lines (editLines lines1 lines2 e))) = End2 e - Start2 e"
proof -
  from wfEdit_bounds [OF assms] have b: "0 \<le> Start1 e" "Start1 e \<le> End1 e"
    "End1 e \<le> int (length lines1)" "0 \<le> Start2 e" "Start2 e \<le> End2 e"
    "End2 e \<le> int (length lines2)" by simp_all
  from b have l1: "int (length (slice lines1 (Start1 e) (End1 e))) = End1 e - Start1 e"
    by (intro length_slice)
  from b have l2: "int (length (slice lines2 (Start2 e) (End2 e))) = End2 e - Start2 e"
    by (intro length_slice)
  from wfEdit_bounds [OF assms] consider (eq) "Type e = ''equal''" | (del) "Type e = ''delete''"
    | (ins) "Type e = ''insert''" by blast
  then have "int (length (side1Lines (editLines lines1 lines2 e))) = End1 e - Start1 e
    \<and> int (length (side2Lines (editLines lines1 lines2 e))) = End2 e - Start2 e"
  proof cases
    case eq
    with wfEdit_equal [OF assms] l1 show ?thesis
      by (simp add: editLines_def append_single sideLines_space)
  next
    case del
    with wfEdit_delete [OF assms] l1 show ?thesis
      by (simp add: editLines_def append_single sideLines_minus)
  next
    case ins
    with wfEdit_insert [OF assms] l2 show ?thesis
      by (simp add: editLines_def append_single sideLines_plus)
  qed
  then show "int (length (side1Lines (editLines lines1 lines2 e))) = End1 e - Start1 e"
    and "int (length (side2Lines (editLines lines1 lines2 e))) = End2 e - Start2 e" by simp_all
qed

lemma chain_count:
  "chain lines1 lines2 es p q r s \<Longrightarrow>
     int (length (side1Lines (concat (map (editLines lines1 lines2) es)))) = r - p \<and>
     int (length (side2Lines (concat (map (editLines lines1 lines2) es)))) = s - q"
proof (induction es arbitrary: p q)
  case Nil
  then show ?case by (simp add: side1Lines_def side2Lines_def)
next
  case (Cons e es)
  from Cons.prems have e: "Start1 e = p" "Start2 e = q" "wfEdit lines1 lines2 e"
    and rest: "chain lines1 lines2 es (End1 e) (End2 e) r s" by simp_all
  from Cons.IH [OF rest] editLines_count [OF e(3)] e(1,2) show ?case
    by (simp add: sideLines_append)
qed

text \<open>
  A hunk is consistent when its header carries, as its two lengths, the number of body lines
  that belong to side 1 (prefix space or minus) and to side 2 (prefix space or plus).
\<close>

definition consistentHunk :: "string list \<Rightarrow> bool" where
  "consistentHunk h \<longleftrightarrow>
     (\<exists>s1 len1 s2 len2 body. h = hunkHeader s1 len1 s2 len2 # body \<and>
        len1 = int (length (side1Lines body)) \<and> len2 = int (length (side2Lines body)))"

lemma group_consistent:
  assumes g: "es \<noteq> []" "chain lines1 lines2 es a1 a2 b1 b2"
    and c: "0 \<le> c" "c < 2 ^ 62"
    and len: "int (length lines1) \<le> 2 ^ 62" "int (length lines2) \<le> 2 ^ 62"
    and lead: "a1 = a2 \<or> (c \<le> a1 \<and> c \<le> a2)"
    and trail: "(b1 = int (length lines1) \<and> b2 = int (length lines2)) \<or>
                (b1 + c \<le> int (length lines1) \<and> b2 + c \<le> int (length lines2))"
  shows "\<exists>h. createSingleHunk lines1 lines2 es c = Some h \<and> 0 < length h \<and> consistentHunk h"
proof -
  let ?n = "int (length lines1)" and ?m = "int (length lines2)"
  from chain_ends [OF g(2,1)] have ends: "Start1 (es ! 0) = a1" "Start2 (es ! 0) = a2"
    "End1 (es ! (length es - 1)) = b1" "End2 (es ! (length es - 1)) = b2" by blast+
  from g(1) have "0 < length es" by simp
  from chain_nth [OF g(2) this] ends(1,2) have a: "0 \<le> a1" "a1 \<le> ?n" "0 \<le> a2" "a2 \<le> ?m"
    by (auto dest: wfEdit_bounds)
  from g(1) have "length es - 1 < length es" by simp
  from chain_nth [OF g(2) this] ends(3,4) have b: "0 \<le> b1" "b1 \<le> ?n" "0 \<le> b2" "b2 \<le> ?m"
    by (auto dest: wfEdit_bounds)
  from chain_mono [OF g(2)] have ab: "a1 \<le> b1" "a2 \<le> b2" by simp_all
  define cs1 where "cs1 = max 0 (a1 - c)"
  define cs2 where "cs2 = max 0 (a2 - c)"
  define ce1 where "ce1 = min ?n (b1 + c)"
  define ce2 where "ce2 = min ?m (b2 + c)"
  have w: "sub64 a1 c = a1 - c" "sub64 a2 c = a2 - c" "add64 b1 c = b1 + c" "add64 b2 c = b2 + c"
    using a b c len by (simp_all add: sub64_def add64_def wrap64_id)
  have m: "max_go 0 (sub64 a1 c) = cs1" "max_go 0 (sub64 a2 c) = cs2"
    "min_go ?n (add64 b1 c) = ce1" "min_go ?m (add64 b2 c) = ce2"
    by (simp_all add: w max_go_max min_go_min cs1_def cs2_def ce1_def ce2_def)
  have cs: "0 \<le> cs1" "cs1 \<le> a1" "0 \<le> cs2" "cs2 \<le> a2"
    using c a by (simp_all add: cs1_def cs2_def)
  have ce: "b1 \<le> ce1" "ce1 \<le> ?n" "b2 \<le> ce2" "ce2 \<le> ?m"
    using c b by (simp_all add: ce1_def ce2_def)
  have lead_eq: "a1 - cs1 = a2 - cs2" using lead a c unfolding cs1_def cs2_def by linarith
  have trail_eq: "ce1 - b1 = ce2 - b2" using trail b c unfolding ce1_def ce2_def by linarith
  have w2: "sub64 ce1 cs1 = ce1 - cs1" "sub64 ce2 cs2 = ce2 - cs2"
    using cs ce a b len by (simp_all add: sub64_def wrap64_id)
  let ?pre = "map (\<lambda>l. '' '' @ l) (slice lines1 cs1 a1)"
  let ?mid = "concat (map (editLines lines1 lines2) es)"
  let ?post = "map (\<lambda>l. '' '' @ l) (slice lines1 b1 ce1)"
  let ?body = "?pre @ ?mid @ ?post"
  have hunk: "createSingleHunk lines1 lines2 es c =
      Some (hunkHeader (add64 cs1 1) (ce1 - cs1) (add64 cs2 1) (ce2 - cs2) # ?body)"
    using createSingleHunk_ok [OF g, of c] by (simp add: m w2)
  have lpre: "int (length (slice lines1 cs1 a1)) = a1 - cs1"
    using cs a by (intro length_slice) simp_all
  have lpost: "int (length (slice lines1 b1 ce1)) = ce1 - b1"
    using ce b by (intro length_slice) simp_all
  from chain_count [OF g(2)] have mid:
    "int (length (side1Lines ?mid)) = b1 - a1" "int (length (side2Lines ?mid)) = b2 - a2"
    by simp_all
  have c1: "int (length (side1Lines ?body)) = ce1 - cs1"
    using lpre lpost mid(1) by (simp add: sideLines_append sideLines_space)
  have "int (length (side2Lines ?body)) = (a1 - cs1) + (b2 - a2) + (ce1 - b1)"
    using lpre lpost mid(2) by (simp add: sideLines_append sideLines_space)
  with lead_eq trail_eq have c2: "int (length (side2Lines ?body)) = ce2 - cs2" by linarith
  have "consistentHunk (hunkHeader (add64 cs1 1) (ce1 - cs1) (add64 cs2 1) (ce2 - cs2) # ?body)"
    unfolding consistentHunk_def using c1 c2 by metis
  with hunk show ?thesis by simp
qed

text \<open>
  A firm boundary: an Equal run of at least \<open>2 * context\<close> lines. Where \<open>context * 2\<close> does
  not overflow, these are exactly the edits at which the inner loop of
  \<^verbatim>\<open>createHunksFromEdits\<close> stops.
\<close>

definition firm :: "int \<Rightarrow> Edit \<Rightarrow> bool" where
  "firm c e \<longleftrightarrow> Type e = ''equal'' \<and> 2 * c \<le> End1 e - Start1 e"

lemma absorbed_plain:
  assumes "- (2 ^ 62) \<le> c" "c < 2 ^ 62"
    and "- (2 ^ 63) \<le> End1 e - Start1 e" "End1 e - Start1 e < 2 ^ 63"
  shows "absorbed c e \<longleftrightarrow> Type e \<noteq> ''equal'' \<or> End1 e - Start1 e < 2 * c"
proof -
  from assms(1,2) have "mul64 c 2 = 2 * c" by (simp add: mul64_def wrap64_id)
  moreover from assms(3,4) have "sub64 (End1 e) (Start1 e) = End1 e - Start1 e"
    by (simp add: sub64_def wrap64_id)
  ultimately show ?thesis by (simp add: absorbed_def)
qed

lemma not_absorbed_firm:
  assumes "- (2 ^ 62) \<le> c" "c < 2 ^ 62"
    and "- (2 ^ 63) \<le> End1 e - Start1 e" "End1 e - Start1 e < 2 ^ 63"
  shows "\<not> absorbed c e \<longleftrightarrow> firm c e"
  using absorbed_plain [OF assms] by (auto simp: firm_def)

lemma hunksLoop_consistent:
  assumes ch: "chain lines1 lines2 es 0 0 (int (length lines1)) (int (length lines2))"
    and c: "0 \<le> c" "c < 2 ^ 62"
    and len: "int (length lines1) \<le> 2 ^ 62" "int (length lines2) \<le> 2 ^ 62"
  shows "i \<le> length es \<Longrightarrow> i = 0 \<or> i = length es \<or> firm c (es ! i) \<Longrightarrow>
     \<forall>h \<in> set hunks. consistentHunk h \<Longrightarrow>
     \<exists>hs. hunksLoop lines1 lines2 es c i hunks = Some hs \<and> (\<forall>h \<in> set hs. consistentHunk h)"
proof (induction "length es - i" arbitrary: i hunks rule: less_induct)
  case less
  let ?n = "int (length lines1)" and ?m = "int (length lines2)"
  show ?case
  proof (cases "i < length es")
    case False
    with less.prems(3) show ?thesis by (simp add: hunksLoop_stop)
  next
    case True
    define i1 where "i1 = skipEqual es i"
    define i2 where "i2 = extendHunk es c i1"
    from skipEqual_spec [OF less.prems(1)] have s: "i \<le> i1" "i1 \<le> length es"
      "\<forall>k. i \<le> k \<and> k < i1 \<longrightarrow> Type (es ! k) = ''equal''"
      "i1 < length es \<longrightarrow> Type (es ! i1) \<noteq> ''equal''" unfolding i1_def by blast+
    show ?thesis
    proof (cases "i1 < length es")
      case False
      with True less.prems(3) show ?thesis unfolding i1_def by (simp add: hunksLoop_skip_end)
    next
      case i1: True
      with s have "absorbed c (es ! i1)" by (simp add: absorbed_def)
      with i1 have lt: "i1 < i2" unfolding i2_def by (rule extendHunk_greater)
      from extendHunk_spec [OF s(2)] have x: "i2 \<le> length es"
        "i2 < length es \<longrightarrow> \<not> absorbed c (es ! i2)" unfolding i2_def by blast+
      let ?g = "take (i2 - i1) (drop i1 es)"
      from lt have "i1 \<le> i2" by simp
      from chain_group [OF ch this x(1)] obtain p q r s where
        pre: "chain lines1 lines2 (take i1 es) 0 0 p q"
        and rest: "chain lines1 lines2 (drop i1 es) p q ?n ?m"
        and g: "chain lines1 lines2 ?g p q r s"
        and post: "chain lines1 lines2 (drop i2 es) r s ?n ?m" by blast
      from lt x(1) have ne: "?g \<noteq> []" by simp
      from chain_drop_start [OF rest i1] have pq: "Start1 (es ! i1) = p" "Start2 (es ! i1) = q"
        by simp_all
      have lead: "p = q \<or> (c \<le> p \<and> c \<le> q)"
      proof (cases "i = 0")
        case True
        with s(3) s(2) have "\<forall>e \<in> set (take i1 es). Type e = ''equal''"
          by (auto simp: in_set_conv_nth)
        from all_equal_chain [OF pre this] show ?thesis by simp
      next
        case False
        with less.prems(2) \<open>i < length es\<close> have f: "firm c (es ! i)" by simp
        with s(4) i1 have "i \<noteq> i1" by (auto simp: firm_def)
        with s(1) have ii: "i < i1" by simp
        from chain_later [OF ch ii i1] pq have le: "End1 (es ! i) \<le> p" "End2 (es ! i) \<le> q"
          by simp_all
        from chain_nth [OF ch True] have wf: "wfEdit lines1 lines2 (es ! i)"
          "0 \<le> Start1 (es ! i)" "0 \<le> Start2 (es ! i)" by simp_all
        from f wfEdit_equal [OF wf(1)] have "2 * c \<le> End1 (es ! i) - Start1 (es ! i)"
          "2 * c \<le> End2 (es ! i) - Start2 (es ! i)" by (simp_all add: firm_def)
        with le wf(2,3) c(1) show ?thesis by linarith
      qed
      have trail: "(r = ?n \<and> s = ?m) \<or> (r + c \<le> ?n \<and> s + c \<le> ?m)"
      proof (cases "i2 < length es")
        case False
        with x(1) post show ?thesis by simp
      next
        case True
        from chain_nth [OF ch True] have wf: "wfEdit lines1 lines2 (es ! i2)" by simp
        from wfEdit_bounds [OF wf] len have bnd: "- (2 ^ 63) \<le> End1 (es ! i2) - Start1 (es ! i2)"
          "End1 (es ! i2) - Start1 (es ! i2) < 2 ^ 63"
          "End1 (es ! i2) \<le> ?n" "End2 (es ! i2) \<le> ?m" by simp_all
        from c have c': "- (2 ^ 62) \<le> c" by simp
        from x(2) True not_absorbed_firm [OF c' c(2) bnd(1,2)] have f: "firm c (es ! i2)" by simp
        from chain_drop_start [OF post True] have rs: "Start1 (es ! i2) = r" "Start2 (es ! i2) = s"
          by simp_all
        from f wfEdit_equal [OF wf] have "2 * c \<le> End1 (es ! i2) - Start1 (es ! i2)"
          "2 * c \<le> End2 (es ! i2) - Start2 (es ! i2)" by (simp_all add: firm_def)
        with rs bnd(3,4) c(1) show ?thesis by linarith
      qed
      from group_consistent [OF ne g c len lead trail] obtain h where
        h: "createSingleHunk lines1 lines2 ?g c = Some h" "0 < length h" "consistentHunk h"
        by blast
      have inv: "i2 = 0 \<or> i2 = length es \<or> firm c (es ! i2)"
      proof (cases "i2 < length es")
        case False
        with x(1) show ?thesis by simp
      next
        case True
        from chain_nth [OF ch True] have wf: "wfEdit lines1 lines2 (es ! i2)" by simp
        from wfEdit_bounds [OF wf] len have bnd: "- (2 ^ 63) \<le> End1 (es ! i2) - Start1 (es ! i2)"
          "End1 (es ! i2) - Start1 (es ! i2) < 2 ^ 63" by simp_all
        from c have c': "- (2 ^ 62) \<le> c" by simp
        from x(2) True not_absorbed_firm [OF c' c(2) bnd] show ?thesis by simp
      qed
      have dec: "length es - i2 < length es - i" using lt s(1) True by linarith
      from less.prems(3) h(3) have acc: "\<forall>h' \<in> set (hunks @ [h]). consistentHunk h'" by simp
      from less.hyps [OF dec x(1) inv acc] obtain hs where
        "hunksLoop lines1 lines2 es c i2 (hunks @ [h]) = Some hs" "\<forall>h \<in> set hs. consistentHunk h"
        by blast
      with h(1,2) True i1 show ?thesis unfolding i1_def i2_def
        by (simp add: hunksLoop_step)
    qed
  qed
qed

subsection \<open>Reading a header back\<close>

text \<open>The header determines its four numbers.\<close>

definition digitVal :: "char \<Rightarrow> int" where
  "digitVal ch = int (of_char ch) - 48"

lemma digitVal_table: "\<forall>k \<in> set [0..<10]. digitVal (''0123456789'' ! k) = int k"
  by code_simp

lemma digitVal_digitChar: "0 \<le> d \<Longrightarrow> d < 10 \<Longrightarrow> digitVal (digitChar d) = d"
proof -
  assume d: "0 \<le> d" "d < 10"
  then have "nat d \<in> set [0..<10]" by simp
  with digitVal_table have "digitVal (''0123456789'' ! nat d) = int (nat d)" by blast
  with d show ?thesis by (simp add: digitChar_def)
qed

lemma digitChar_set: "d < 10 \<Longrightarrow> digitChar d \<in> set ''0123456789''"
proof -
  assume "d < 10"
  then have "nat d < length ''0123456789''" by simp
  then show ?thesis unfolding digitChar_def by (rule nth_mem)
qed

lemma digits_step: "\<not> n < 10 \<Longrightarrow> digits n = digits (n div 10) @ [digitChar (n mod 10)]"
  by (subst digits.simps) simp

lemma digits_stop: "n < 10 \<Longrightarrow> digits n = [digitChar n]"
  by (subst digits.simps) simp

lemma digits_chars: "set (digits n) \<subseteq> set ''0123456789'' \<and> digits n \<noteq> []"
proof (induction n rule: digits.induct)
  case (1 n)
  show ?case
  proof (cases "n < 10")
    case True
    with digitChar_set [of n] show ?thesis by (simp add: digits_stop)
  next
    case False
    have "n mod 10 < 10" by simp
    from digitChar_set [OF this] "1.IH" [OF False] False show ?thesis
      by (simp add: digits_step)
  qed
qed

definition decVal :: "string \<Rightarrow> int" where
  "decVal s = foldl (\<lambda>a ch. 10 * a + digitVal ch) 0 s"

lemma decVal_digits: "0 \<le> n \<Longrightarrow> decVal (digits n) = n"
proof (induction n rule: digits.induct)
  case (1 n)
  show ?case
  proof (cases "n < 10")
    case True
    with "1.prems" show ?thesis by (simp add: digits_stop decVal_def digitVal_digitChar)
  next
    case False
    with "1.prems" have "0 \<le> n div 10" by simp
    from "1.IH" [OF False this] have "decVal (digits (n div 10)) = n div 10" .
    moreover have "digitVal (digitChar (n mod 10)) = n mod 10"
      by (intro digitVal_digitChar) simp_all
    ultimately show ?thesis using False by (simp add: digits_step decVal_def)
  qed
qed

lemma digits_no_separator:
  assumes "ch \<in> set (digits n)"
  shows "ch \<noteq> CHR '','' \<and> ch \<noteq> CHR '' '' \<and> ch \<noteq> CHR ''-''"
proof -
  from assms digits_chars [of n] have "ch \<in> set ''0123456789''" by blast
  then show ?thesis by auto
qed

lemma itoa_no_separator: "CHR '','' \<notin> set (itoa x) \<and> CHR '' '' \<notin> set (itoa x)"
proof (cases "x < 0")
  case True
  then have "set (itoa x) = insert CHR ''-'' (set (digits (- x)))" by (simp add: itoa_def)
  with digits_no_separator [of _ "- x"] show ?thesis by auto
next
  case False
  then have "set (itoa x) = set (digits x)" by (simp add: itoa_def)
  with digits_no_separator [of _ x] show ?thesis by auto
qed

lemma digits_hd: "hd (digits n) \<noteq> CHR ''-''"
proof -
  from digits_chars [of n] have "hd (digits n) \<in> set (digits n)" by simp
  from digits_no_separator [OF this] show ?thesis by simp
qed

lemma itoa_inject: "itoa x = itoa y \<Longrightarrow> x = y"
proof -
  assume eq: "itoa x = itoa y"
  consider (nn) "x < 0" "y < 0" | (np) "x < 0" "\<not> y < 0" | (pn) "\<not> x < 0" "y < 0"
    | (pp) "\<not> x < 0" "\<not> y < 0" by blast
  then show ?thesis
  proof cases
    case nn
    with eq have "digits (- x) = digits (- y)" by (simp add: itoa_def)
    then have "decVal (digits (- x)) = decVal (digits (- y))" by simp
    with nn show ?thesis by (simp add: decVal_digits)
  next
    case np
    with eq have "CHR ''-'' # digits (- x) = digits y" by (simp add: itoa_def)
    then have "hd (digits y) = CHR ''-''" by (metis list.sel(1))
    with digits_hd show ?thesis by blast
  next
    case pn
    with eq have "digits x = CHR ''-'' # digits (- y)" by (simp add: itoa_def)
    then have "hd (digits x) = CHR ''-''" by (metis list.sel(1))
    with digits_hd show ?thesis by blast
  next
    case pp
    with eq have "decVal (digits x) = decVal (digits y)" by (simp add: itoa_def)
    with pp show ?thesis by (simp add: decVal_digits)
  qed
qed

lemma split_at_separator:
  "ch \<notin> set xs \<Longrightarrow> ch \<notin> set xs' \<Longrightarrow> xs @ ch # ys = xs' @ ch # ys' \<Longrightarrow> xs = xs' \<and> ys = ys'"
proof (induction xs arbitrary: xs')
  case Nil
  then show ?case by (cases xs') auto
next
  case (Cons x xs)
  then show ?case by (cases xs') auto
qed

lemma hunkHeader_inject:
  assumes "hunkHeader s1 l1 s2 l2 = hunkHeader s1' l1' s2' l2'"
  shows "s1 = s1' \<and> l1 = l1' \<and> s2 = s2' \<and> l2 = l2'"
proof -
  have comma: "CHR '','' \<notin> set (itoa x)" for x using itoa_no_separator [of x] by blast
  have space: "CHR '' '' \<notin> set (itoa x)" for x using itoa_no_separator [of x] by blast
  from assms have e1: "itoa s1 @ CHR '','' # (itoa l1 @ '' +'' @ itoa s2 @ '','' @ itoa l2 @ '' @@'')
      = itoa s1' @ CHR '','' # (itoa l1' @ '' +'' @ itoa s2' @ '','' @ itoa l2' @ '' @@'')"
    by (simp add: hunkHeader_def)
  from split_at_separator [OF comma comma e1] have a: "itoa s1 = itoa s1'"
    and e2: "itoa l1 @ CHR '' '' # (''+'' @ itoa s2 @ '','' @ itoa l2 @ '' @@'')
      = itoa l1' @ CHR '' '' # (''+'' @ itoa s2' @ '','' @ itoa l2' @ '' @@'')" by simp_all
  from split_at_separator [OF space space e2] have b: "itoa l1 = itoa l1'"
    and e3: "itoa s2 @ CHR '','' # (itoa l2 @ '' @@'') = itoa s2' @ CHR '','' # (itoa l2' @ '' @@'')"
    by simp_all
  from split_at_separator [OF comma comma e3] have c: "itoa s2 = itoa s2'"
    and d: "itoa l2 = itoa l2'" by simp_all
  from a b c d show ?thesis by (simp add: itoa_inject)
qed

section \<open>The properties of the specification, claim by claim\<close>

text \<open>
  C1. \<^verbatim>\<open>computeDiff\<close> returns for every pair of line sequences (the model is a total
  function: the table is filled by two bounded loops, and the backtracking loop is defined
  by well-founded recursion on \<open>i + j\<close>, which every branch decreases). Concatenating, in
  list order, the ranges \<open>[Start1, End1)\<close> of sequence 1 over the Equal and Delete
  operations gives back sequence 1, and the ranges \<open>[Start2, End2)\<close> of sequence 2 over the
  Equal and Insert operations give back sequence 2. Every range lies inside its
  sequence, so each \<open>slice\<close> is the Go slice expression and nothing is clipped.
\<close>

theorem computeDiff_reconstructs:
  "concat (map (\<lambda>e. slice lines1 (Start1 e) (End1 e))
     (filter (\<lambda>e. Type e = ''equal'' \<or> Type e = ''delete'') (computeDiff lines1 lines2))) = lines1
   \<and> concat (map (\<lambda>e. slice lines2 (Start2 e) (End2 e))
     (filter (\<lambda>e. Type e = ''equal'' \<or> Type e = ''insert'') (computeDiff lines1 lines2))) = lines2
   \<and> (\<forall>e \<in> set (computeDiff lines1 lines2).
         0 \<le> Start1 e \<and> Start1 e \<le> End1 e \<and> End1 e \<le> int (length lines1) \<and>
         0 \<le> Start2 e \<and> Start2 e \<le> End2 e \<and> End2 e \<le> int (length lines2))"
proof -
  have "\<forall>e \<in> set (computeDiff lines1 lines2).
         0 \<le> Start1 e \<and> Start1 e \<le> End1 e \<and> End1 e \<le> int (length lines1) \<and>
         0 \<le> Start2 e \<and> Start2 e \<le> End2 e \<and> End2 e \<le> int (length lines2)"
    using chain_set [OF computeDiff_chain] wfEdit_bounds by blast
  with chain_side1 [OF computeDiff_chain] chain_side2 [OF computeDiff_chain]
  show ?thesis by simp
qed

theorem computeDiff_reconstructs_witness:
  "concat (map (\<lambda>e. slice [''a'', ''b'', ''c''] (Start1 e) (End1 e))
     (filter (\<lambda>e. Type e = ''equal'' \<or> Type e = ''delete'')
       (computeDiff [''a'', ''b'', ''c''] [''a'', ''x'', ''c'']))) = [''a'', ''b'', ''c'']
   \<and> concat (map (\<lambda>e. slice [''a'', ''x'', ''c''] (Start2 e) (End2 e))
     (filter (\<lambda>e. Type e = ''equal'' \<or> Type e = ''insert'')
       (computeDiff [''a'', ''b'', ''c''] [''a'', ''x'', ''c'']))) = [''a'', ''x'', ''c'']
   \<and> computeDiff [''a'', ''b'', ''c''] [''a'', ''x'', ''c''] =
       [\<lparr>Type = ''equal'', Start1 = 0, End1 = 1, Start2 = 0, End2 = 1\<rparr>,
        \<lparr>Type = ''insert'', Start1 = 1, End1 = 1, Start2 = 1, End2 = 2\<rparr>,
        \<lparr>Type = ''delete'', Start1 = 1, End1 = 2, Start2 = 2, End2 = 2\<rparr>,
        \<lparr>Type = ''equal'', Start1 = 2, End1 = 3, Start2 = 2, End2 = 3\<rparr>]"
proof -
  have ev: "computeDiff [''a'', ''b'', ''c''] [''a'', ''x'', ''c''] =
       [\<lparr>Type = ''equal'', Start1 = 0, End1 = 1, Start2 = 0, End2 = 1\<rparr>,
        \<lparr>Type = ''insert'', Start1 = 1, End1 = 1, Start2 = 1, End2 = 2\<rparr>,
        \<lparr>Type = ''delete'', Start1 = 1, End1 = 2, Start2 = 2, End2 = 2\<rparr>,
        \<lparr>Type = ''equal'', Start1 = 2, End1 = 3, Start2 = 2, End2 = 3\<rparr>]"
    by code_simp
  note r = computeDiff_reconstructs [of "[''a'', ''b'', ''c'']" "[''a'', ''x'', ''c'']"]
  from r [THEN conjunct1] r [THEN conjunct2, THEN conjunct1] ev show ?thesis by blast
qed

text \<open>
  C2. The table is right: \<open>dp[i][j]\<close> is the length of the longest common subsequence of
  \<open>seq1[0:i]\<close> and \<open>seq2[0:j]\<close> (lemma \<open>fillTable_lcs\<close>). The edit script is not always
  minimal, though. The Delete loop of the backtracking goes on while
  \<open>dp[i-1][j] \<ge> dp[i][j-1]\<close> without looking for a diagonal match, which the outer loop
  tests first; so it can delete a line of the common subsequence, and the line is then
  inserted again. For \<open>["a","b"]\<close> against \<open>["a"]\<close> the longest common subsequence has
  length 1, so a minimal script deletes \<open>2 - 1 = 1\<close> line and inserts \<open>1 - 1 = 0\<close>;
  \<^verbatim>\<open>computeDiff\<close> returns an Insert of \<open>"a"\<close> followed by a Delete of both lines.
\<close>

theorem computeDiff_not_minimal:
  "lcsLength [''a'', ''b''] [''a''] = 1
   \<and> fillTable [''a'', ''b''] [''a''] ! 2 ! 1 = 1
   \<and> computeDiff [''a'', ''b''] [''a''] =
       [\<lparr>Type = ''insert'', Start1 = 0, End1 = 0, Start2 = 0, End2 = 1\<rparr>,
        \<lparr>Type = ''delete'', Start1 = 0, End1 = 2, Start2 = 1, End2 = 1\<rparr>]
   \<and> deletedLines (computeDiff [''a'', ''b''] [''a'']) = 2
   \<and> insertedLines (computeDiff [''a'', ''b''] [''a'']) = 1"
proof -
  have tab: "fillTable [''a'', ''b''] [''a''] ! 2 ! 1 = 1" by code_simp
  have "fillTable [''a'', ''b''] [''a''] ! 2 ! 1
      = int (lcsLength (take 2 [''a'', ''b'']) (take 1 [''a'']))"
    by (rule fillTable_lcs) simp_all
  with tab have lcs: "lcsLength [''a'', ''b''] [''a''] = 1" by simp
  have ev: "computeDiff [''a'', ''b''] [''a''] =
       [\<lparr>Type = ''insert'', Start1 = 0, End1 = 0, Start2 = 0, End2 = 1\<rparr>,
        \<lparr>Type = ''delete'', Start1 = 0, End1 = 2, Start2 = 1, End2 = 1\<rparr>]"
    by code_simp
  have "deletedLines (computeDiff [''a'', ''b''] [''a'']) = 2"
    "insertedLines (computeDiff [''a'', ''b''] [''a'']) = 1"
    unfolding ev by (simp_all add: deletedLines_def insertedLines_def)
  with lcs tab ev show ?thesis by blast
qed

text \<open>
  C3. For \<open>["a","b","c"]\<close> against \<open>["a","x","c"]\<close> with context 1 the body of the hunk is
  not \<open>" a", "-b", "+x", " c"\<close>: the backtracking takes the Delete first while walking
  backwards, so in the forward list the Insert stands before the Delete.
\<close>

theorem scenario_replace_not_delete_first:
  "generateHunks [''a'', ''b'', ''c''] [''a'', ''x'', ''c''] 1 \<noteq>
     Some [[''@@ -1,3 +1,3 @@'', '' a'', ''-b'', ''+x'', '' c'']]"
proof -
  have "generateHunks [''a'', ''b'', ''c''] [''a'', ''x'', ''c''] 1 =
     Some [[''@@ -1,3 +1,3 @@'', '' a'', ''+x'', ''-b'', '' c'']]"
    by code_simp
  then show ?thesis by simp
qed

text \<open>
  C3, as amended. There is exactly one hunk, its header line is \<open>@@ -1,3 +1,3 @@\<close>, and its
  body lines are, in order, \<open>" a"\<close>, \<open>"+x"\<close>, \<open>"-b"\<close>, \<open>" c"\<close>: the inserted line
  comes before the deleted one (the order the README's sample output shows).
\<close>

theorem scenario_replace:
  "generateHunks [''a'', ''b'', ''c''] [''a'', ''x'', ''c''] 1 =
     Some [[''@@ -1,3 +1,3 @@'', '' a'', ''+x'', ''-b'', '' c'']]"
  by code_simp

text \<open>
  C4. For every context \<open>\<ge> 0\<close> the claim fails near the top of Go's 64-bit \<open>int\<close>: for
  \<open>["a"]\<close> against \<open>["b"]\<close> with context \<open>2^63 - 1\<close> the sums \<open>end1 + context\<close> and
  \<open>end2 + context\<close> wrap around to \<open>-2^63\<close>, the header reads
  \<open>@@ -1,-9223372036854775808 +1,-9223372036854775808 @@\<close>, and the body has one minus line and
  one plus line. (A header string determines its four numbers: \<open>hunkHeader_inject\<close>.)
\<close>

theorem hunk_header_lengths_overflow:
  "generateHunks [''a''] [''b''] 9223372036854775807 =
      Some [[''@@ -1,-9223372036854775808 +1,-9223372036854775808 @@'', ''+b'', ''-a'']]
   \<and> \<not> (\<forall>h \<in> set (the (generateHunks [''a''] [''b''] 9223372036854775807)).
        \<exists>s1 len1 s2 len2 body.
          h = hunkHeader s1 len1 s2 len2 # body \<and>
          len1 = int (length (filter (\<lambda>l. hasPrefix l '' '' \<or> hasPrefix l ''-'') body)) \<and>
          len2 = int (length (filter (\<lambda>l. hasPrefix l '' '' \<or> hasPrefix l ''+'') body)))"
proof -
  have out: "generateHunks [''a''] [''b''] 9223372036854775807 =
      Some [[''@@ -1,-9223372036854775808 +1,-9223372036854775808 @@'', ''+b'', ''-a'']]"
    by code_simp
  have ev: "generateHunks [''a''] [''b''] 9223372036854775807 =
      Some [[hunkHeader 1 (- 9223372036854775808) 1 (- 9223372036854775808), ''+b'', ''-a'']]"
    by code_simp
  have "False" if a: "\<forall>h \<in> set (the (generateHunks [''a''] [''b''] 9223372036854775807)).
        \<exists>s1 len1 s2 len2 body.
          h = hunkHeader s1 len1 s2 len2 # body \<and>
          len1 = int (length (filter (\<lambda>l. hasPrefix l '' '' \<or> hasPrefix l ''-'') body)) \<and>
          len2 = int (length (filter (\<lambda>l. hasPrefix l '' '' \<or> hasPrefix l ''+'') body))"
  proof -
    from a obtain s1 len1 s2 len2 body where
      h: "[hunkHeader 1 (- 9223372036854775808) 1 (- 9223372036854775808), ''+b'', ''-a'']
            = hunkHeader s1 len1 s2 len2 # body"
      and l: "len1 = int (length (filter (\<lambda>l. hasPrefix l '' '' \<or> hasPrefix l ''-'') body))"
      unfolding ev by auto
    from h have "hunkHeader 1 (- 9223372036854775808) 1 (- 9223372036854775808)
        = hunkHeader s1 len1 s2 len2" by simp
    from hunkHeader_inject [OF this] have "len1 = - 9223372036854775808" by simp
    with l show False by linarith
  qed
  with out show ?thesis by blast
qed

text \<open>
  C4, as amended. For every context with \<open>0 \<le> context < 2^62\<close> and inputs of at most
  \<open>2^62\<close> lines each (every Go slice is far shorter), the hunk assembler applied to the
  output of \<^verbatim>\<open>computeDiff\<close> returns hunks, and in each of them the header's first length
  is the number of body lines prefixed with a space or a minus, and its second length is the
  number of body lines prefixed with a space or a plus.
\<close>

theorem hunk_header_lengths:
  assumes "0 \<le> context" "context < 2 ^ 62"
    and "int (length lines1) \<le> 2 ^ 62" "int (length lines2) \<le> 2 ^ 62"
  shows "\<exists>hunks. generateHunks lines1 lines2 context = Some hunks \<and>
     (\<forall>h \<in> set hunks. \<exists>s1 len1 s2 len2 body.
          h = hunkHeader s1 len1 s2 len2 # body \<and>
          len1 = int (length (filter (\<lambda>l. hasPrefix l '' '' \<or> hasPrefix l ''-'') body)) \<and>
          len2 = int (length (filter (\<lambda>l. hasPrefix l '' '' \<or> hasPrefix l ''+'') body)))"
proof -
  have "\<forall>h \<in> set ([] :: string list list). consistentHunk h" by simp
  from hunksLoop_consistent [OF computeDiff_chain assms, of 0 "[]"] this
  show ?thesis
    by (simp add: generateHunks_def createHunksFromEdits_def consistentHunk_def
        side1Lines_def side2Lines_def)
qed

theorem hunk_header_lengths_witness:
  "(0::int) \<le> 1 \<and> (1::int) < 2 ^ 62
   \<and> int (length [''a'', ''b'', ''c'']) \<le> 2 ^ 62 \<and> int (length [''a'', ''x'', ''c'']) \<le> 2 ^ 62
   \<and> generateHunks [''a'', ''b'', ''c''] [''a'', ''x'', ''c''] 1
        = Some [hunkHeader 1 3 1 3 # ['' a'', ''+x'', ''-b'', '' c'']]
   \<and> (\<exists>hunks. generateHunks [''a'', ''b'', ''c''] [''a'', ''x'', ''c''] 1 = Some hunks \<and>
     (\<forall>h \<in> set hunks. \<exists>s1 len1 s2 len2 body.
          h = hunkHeader s1 len1 s2 len2 # body \<and>
          len1 = int (length (filter (\<lambda>l. hasPrefix l '' '' \<or> hasPrefix l ''-'') body)) \<and>
          len2 = int (length (filter (\<lambda>l. hasPrefix l '' '' \<or> hasPrefix l ''+'') body))))"
proof -
  have h1: "(0::int) \<le> 1" and h2: "(1::int) < 2 ^ 62" by simp_all
  have h3: "int (length [''a'', ''b'', ''c'']) \<le> 2 ^ 62"
    and h4: "int (length [''a'', ''x'', ''c'']) \<le> 2 ^ 62" by simp_all
  have ev: "generateHunks [''a'', ''b'', ''c''] [''a'', ''x'', ''c''] 1
        = Some [hunkHeader 1 3 1 3 # ['' a'', ''+x'', ''-b'', '' c'']]"
    by code_simp
  from hunk_header_lengths [OF h1 h2 h3 h4] h1 h2 h3 h4 ev show ?thesis by blast
qed

text \<open>
  C5. The edit list of \<^verbatim>\<open>computeDiff\<close> is not in strictly increasing start order on each
  side: an Insert has an empty range on side 1, so the operation after it starts at the
  same index of sequence 1 (and likewise a Delete on side 2). At \<open>["a","b","c"]\<close> against
  \<open>["a","x","c"]\<close> the Insert and the Delete that follows it both have \<open>Start1 = 1\<close>.
\<close>

theorem computeDiff_not_strictly_increasing:
  "computeDiff [''a'', ''b'', ''c''] [''a'', ''x'', ''c''] =
    [\<lparr>Type = ''equal'', Start1 = 0, End1 = 1, Start2 = 0, End2 = 1\<rparr>,
     \<lparr>Type = ''insert'', Start1 = 1, End1 = 1, Start2 = 1, End2 = 2\<rparr>,
     \<lparr>Type = ''delete'', Start1 = 1, End1 = 2, Start2 = 2, End2 = 2\<rparr>,
     \<lparr>Type = ''equal'', Start1 = 2, End1 = 3, Start2 = 2, End2 = 3\<rparr>]
   \<and> \<not> (\<forall>k. Suc k < length (computeDiff [''a'', ''b'', ''c''] [''a'', ''x'', ''c'']) \<longrightarrow>
        Start1 (computeDiff [''a'', ''b'', ''c''] [''a'', ''x'', ''c''] ! k)
          < Start1 (computeDiff [''a'', ''b'', ''c''] [''a'', ''x'', ''c''] ! Suc k))"
proof -
  have ev: "computeDiff [''a'', ''b'', ''c''] [''a'', ''x'', ''c''] =
    [\<lparr>Type = ''equal'', Start1 = 0, End1 = 1, Start2 = 0, End2 = 1\<rparr>,
     \<lparr>Type = ''insert'', Start1 = 1, End1 = 1, Start2 = 1, End2 = 2\<rparr>,
     \<lparr>Type = ''delete'', Start1 = 1, End1 = 2, Start2 = 2, End2 = 2\<rparr>,
     \<lparr>Type = ''equal'', Start1 = 2, End1 = 3, Start2 = 2, End2 = 3\<rparr>]"
    by code_simp
  then have "\<not> (\<forall>k. Suc k < length (computeDiff [''a'', ''b'', ''c''] [''a'', ''x'', ''c'']) \<longrightarrow>
        Start1 (computeDiff [''a'', ''b'', ''c''] [''a'', ''x'', ''c''] ! k)
          < Start1 (computeDiff [''a'', ''b'', ''c''] [''a'', ''x'', ''c''] ! Suc k))"
    by (auto intro!: exI [of _ 1])
  with ev show ?thesis by blast
qed

text \<open>
  C5, as amended. Every operation is an Equal, a Delete or an Insert with ranges inside the
  two sequences; an Equal has ranges of the same length that hold the same lines, offset by
  offset; a Delete has \<open>End2 = Start2\<close>, an Insert \<open>End1 = Start1\<close>; the ranges are
  contiguous on each side (the first operation starts at \<open>0\<close>, each next one starts where
  its predecessor ends, the last ends at the length) and do not overlap (an earlier
  operation ends at or before the start of every later one); the start
  indices never decrease along the list on either side, and they increase strictly after
  every operation that consumes lines of that side (on side 1 after an Equal or a Delete,
  on side 2 after an Equal or an Insert).
\<close>

theorem computeDiff_well_formed:
  fixes lines1 lines2 :: "string list"
  defines "es \<equiv> computeDiff lines1 lines2"
  shows
   "(\<forall>e \<in> set es.
        (Type e = ''equal'' \<or> Type e = ''delete'' \<or> Type e = ''insert'') \<and>
        0 \<le> Start1 e \<and> Start1 e \<le> End1 e \<and> End1 e \<le> int (length lines1) \<and>
        0 \<le> Start2 e \<and> Start2 e \<le> End2 e \<and> End2 e \<le> int (length lines2))
    \<and> (\<forall>e \<in> set es. Type e = ''equal'' \<longrightarrow>
          End1 e - Start1 e = End2 e - Start2 e \<and>
          (\<forall>k. 0 \<le> k \<and> k < End1 e - Start1 e \<longrightarrow>
             lines1 ! nat (Start1 e + k) = lines2 ! nat (Start2 e + k)))
    \<and> (\<forall>e \<in> set es. Type e = ''delete'' \<longrightarrow> End2 e = Start2 e)
    \<and> (\<forall>e \<in> set es. Type e = ''insert'' \<longrightarrow> End1 e = Start1 e)
    \<and> (es \<noteq> [] \<longrightarrow> Start1 (es ! 0) = 0 \<and> Start2 (es ! 0) = 0 \<and>
          End1 (es ! (length es - 1)) = int (length lines1) \<and>
          End2 (es ! (length es - 1)) = int (length lines2))
    \<and> (\<forall>k. Suc k < length es \<longrightarrow>
          End1 (es ! k) = Start1 (es ! Suc k) \<and> End2 (es ! k) = Start2 (es ! Suc k))
    \<and> (\<forall>k k'. k < k' \<and> k' < length es \<longrightarrow>
          End1 (es ! k) \<le> Start1 (es ! k') \<and> End2 (es ! k) \<le> Start2 (es ! k'))
    \<and> (\<forall>k. Suc k < length es \<longrightarrow>
          Start1 (es ! k) \<le> Start1 (es ! Suc k) \<and> Start2 (es ! k) \<le> Start2 (es ! Suc k))
    \<and> (\<forall>k k'. k < k' \<and> k' < length es \<and> Type (es ! k) \<noteq> ''insert'' \<longrightarrow>
          Start1 (es ! k) < Start1 (es ! k'))
    \<and> (\<forall>k k'. k < k' \<and> k' < length es \<and> Type (es ! k) \<noteq> ''delete'' \<longrightarrow>
          Start2 (es ! k) < Start2 (es ! k'))"
proof -
  have ch: "chain lines1 lines2 es 0 0 (int (length lines1)) (int (length lines2))"
    unfolding es_def by (rule computeDiff_chain)
  have wf: "wfEdit lines1 lines2 e" if "e \<in> set es" for e
    using ch that by (rule chain_set)
  have p1: "\<forall>e \<in> set es.
        (Type e = ''equal'' \<or> Type e = ''delete'' \<or> Type e = ''insert'') \<and>
        0 \<le> Start1 e \<and> Start1 e \<le> End1 e \<and> End1 e \<le> int (length lines1) \<and>
        0 \<le> Start2 e \<and> Start2 e \<le> End2 e \<and> End2 e \<le> int (length lines2)"
    using wf wfEdit_bounds by blast
  have p2: "\<forall>e \<in> set es. Type e = ''equal'' \<longrightarrow>
          End1 e - Start1 e = End2 e - Start2 e \<and>
          (\<forall>k. 0 \<le> k \<and> k < End1 e - Start1 e \<longrightarrow>
             lines1 ! nat (Start1 e + k) = lines2 ! nat (Start2 e + k))"
  proof (intro ballI impI conjI allI)
    fix e assume e: "e \<in> set es" "Type e = ''equal''"
    with wf [of e] show "End1 e - Start1 e = End2 e - Start2 e" by (intro wfEdit_equal)
    fix k assume "0 \<le> k \<and> k < End1 e - Start1 e"
    with wf [of e] e show "lines1 ! nat (Start1 e + k) = lines2 ! nat (Start2 e + k)"
      by (intro wfEdit_equal_nth) simp_all
  qed
  have p3: "\<forall>e \<in> set es. Type e = ''delete'' \<longrightarrow> End2 e = Start2 e"
    using wf wfEdit_delete by blast
  have p4: "\<forall>e \<in> set es. Type e = ''insert'' \<longrightarrow> End1 e = Start1 e"
    using wf wfEdit_insert by blast
  have p5: "es \<noteq> [] \<longrightarrow> Start1 (es ! 0) = 0 \<and> Start2 (es ! 0) = 0 \<and>
          End1 (es ! (length es - 1)) = int (length lines1) \<and>
          End2 (es ! (length es - 1)) = int (length lines2)"
    using chain_ends [OF ch] by blast
  have p6: "\<forall>k. Suc k < length es \<longrightarrow>
          End1 (es ! k) = Start1 (es ! Suc k) \<and> End2 (es ! k) = Start2 (es ! Suc k)"
    using chain_adjacent [OF ch] by blast
  have p10: "\<forall>k k'. k < k' \<and> k' < length es \<longrightarrow>
          End1 (es ! k) \<le> Start1 (es ! k') \<and> End2 (es ! k) \<le> Start2 (es ! k')"
    using chain_later [OF ch] by blast
  have nth_wf: "wfEdit lines1 lines2 (es ! k)" if "k < length es" for k
    using that by (intro wf) simp
  have p7: "\<forall>k. Suc k < length es \<longrightarrow>
          Start1 (es ! k) \<le> Start1 (es ! Suc k) \<and> Start2 (es ! k) \<le> Start2 (es ! Suc k)"
  proof (intro allI impI)
    fix k assume k: "Suc k < length es"
    then have "wfEdit lines1 lines2 (es ! k)" by (intro nth_wf) simp
    then have "Start1 (es ! k) \<le> End1 (es ! k)" "Start2 (es ! k) \<le> End2 (es ! k)"
      by (simp_all add: wfEdit_def)
    with chain_adjacent [OF ch k]
    show "Start1 (es ! k) \<le> Start1 (es ! Suc k) \<and> Start2 (es ! k) \<le> Start2 (es ! Suc k)"
      by simp
  qed
  have p8: "\<forall>k k'. k < k' \<and> k' < length es \<and> Type (es ! k) \<noteq> ''insert'' \<longrightarrow>
          Start1 (es ! k) < Start1 (es ! k')"
  proof (intro allI impI)
    fix k k' assume a: "k < k' \<and> k' < length es \<and> Type (es ! k) \<noteq> ''insert''"
    then have "wfEdit lines1 lines2 (es ! k)" by (intro nth_wf) simp
    with a have "Start1 (es ! k) < End1 (es ! k)" by (intro wfEdit_side1) simp_all
    moreover from a have "End1 (es ! k) \<le> Start1 (es ! k')"
      using chain_later [OF ch, of k k'] by simp
    ultimately show "Start1 (es ! k) < Start1 (es ! k')" by linarith
  qed
  have p9: "\<forall>k k'. k < k' \<and> k' < length es \<and> Type (es ! k) \<noteq> ''delete'' \<longrightarrow>
          Start2 (es ! k) < Start2 (es ! k')"
  proof (intro allI impI)
    fix k k' assume a: "k < k' \<and> k' < length es \<and> Type (es ! k) \<noteq> ''delete''"
    then have "wfEdit lines1 lines2 (es ! k)" by (intro nth_wf) simp
    with a have "Start2 (es ! k) < End2 (es ! k)" by (intro wfEdit_side2) simp_all
    moreover from a have "End2 (es ! k) \<le> Start2 (es ! k')"
      using chain_later [OF ch, of k k'] by simp
    ultimately show "Start2 (es ! k) < Start2 (es ! k')" by linarith
  qed
  from p1 p2 p3 p4 p5 p6 p10 p7 p8 p9 show ?thesis by blast
qed

theorem computeDiff_well_formed_witness:
  "length (computeDiff [''a'', ''b'', ''c''] [''a'', ''x'', ''c'']) = 4
   \<and> End1 (computeDiff [''a'', ''b'', ''c''] [''a'', ''x'', ''c''] ! 1)
       = Start1 (computeDiff [''a'', ''b'', ''c''] [''a'', ''x'', ''c''] ! 2)
   \<and> End2 (computeDiff [''a'', ''b'', ''c''] [''a'', ''x'', ''c''] ! 1)
       = Start2 (computeDiff [''a'', ''b'', ''c''] [''a'', ''x'', ''c''] ! 2)
   \<and> Start1 (computeDiff [''a'', ''b'', ''c''] [''a'', ''x'', ''c''] ! 1)
       \<le> Start1 (computeDiff [''a'', ''b'', ''c''] [''a'', ''x'', ''c''] ! 2)"
proof -
  have len: "length (computeDiff [''a'', ''b'', ''c''] [''a'', ''x'', ''c'']) = 4"
    by code_simp
  note wf = computeDiff_well_formed [of "[''a'', ''b'', ''c'']" "[''a'', ''x'', ''c'']"]
  from wf have adj: "\<forall>k. Suc k < length (computeDiff [''a'', ''b'', ''c''] [''a'', ''x'', ''c'']) \<longrightarrow>
      End1 (computeDiff [''a'', ''b'', ''c''] [''a'', ''x'', ''c''] ! k)
        = Start1 (computeDiff [''a'', ''b'', ''c''] [''a'', ''x'', ''c''] ! Suc k) \<and>
      End2 (computeDiff [''a'', ''b'', ''c''] [''a'', ''x'', ''c''] ! k)
        = Start2 (computeDiff [''a'', ''b'', ''c''] [''a'', ''x'', ''c''] ! Suc k)"
    by (elim conjE) assumption
  from wf have ord: "\<forall>k. Suc k < length (computeDiff [''a'', ''b'', ''c''] [''a'', ''x'', ''c'']) \<longrightarrow>
      Start1 (computeDiff [''a'', ''b'', ''c''] [''a'', ''x'', ''c''] ! k)
        \<le> Start1 (computeDiff [''a'', ''b'', ''c''] [''a'', ''x'', ''c''] ! Suc k) \<and>
      Start2 (computeDiff [''a'', ''b'', ''c''] [''a'', ''x'', ''c''] ! k)
        \<le> Start2 (computeDiff [''a'', ''b'', ''c''] [''a'', ''x'', ''c''] ! Suc k)"
    by (elim conjE) assumption
  from adj [rule_format, of 1] ord [rule_format, of 1] len show ?thesis
    by (simp add: numeral_2_eq_2)
qed

text \<open>
  C6. For \<open>[]\<close> against \<open>["a","b"]\<close> no hunk has the header \<open>@@ -0,0 +1,2 @@\<close>: the header's
  first number is always \<open>contextStart1 + 1\<close>, which is 1 for an empty first sequence.
\<close>

theorem empty_against_two_lines_header:
  "\<not> (\<exists>body. generateHunks [] [''a'', ''b''] 0 = Some [''@@ -0,0 +1,2 @@'' # body])"
proof -
  have "generateHunks [] [''a'', ''b''] 0 = Some [[''@@ -1,0 +1,2 @@'', ''+a'', ''+b'']]"
    by code_simp
  then show ?thesis by simp
qed

text \<open>
  C6, as amended. For \<open>[]\<close> against \<open>["a","b"]\<close> and every context from 0 up to
  \<open>2^63 - 3\<close> (beyond it \<open>end2 + context\<close> overflows Go's 64-bit \<open>int\<close>) there is exactly one
  hunk; its header line is \<open>@@ -1,0 +1,2 @@\<close> and its body is \<open>"+a"\<close>, \<open>"+b"\<close>, every line
  prefixed with \<open>+\<close>.
\<close>

theorem empty_against_two_lines:
  assumes "0 \<le> context" "context \<le> 2 ^ 63 - 3"
  shows "generateHunks [] [''a'', ''b''] context = Some [[''@@ -1,0 +1,2 @@'', ''+a'', ''+b'']]"
proof -
  let ?e = "\<lparr>Type = ''insert'', Start1 = 0, End1 = 0, Start2 = 0, End2 = 2\<rparr>"
  have ch: "chain [] [''a'', ''b''] [?e] 0 0 0 2" by (simp add: wfEdit_def)
  have w1: "sub64 0 context = - context" using assms by (simp add: sub64_def wrap64_id)
  have w2: "add64 0 context = context" using assms by (simp add: add64_def wrap64_id)
  have w3: "add64 2 context = 2 + context" using assms by (simp add: add64_def wrap64_id)
  have w4: "add64 0 1 = 1" "sub64 0 0 = 0" "sub64 2 0 = 2"
    by (simp_all add: add64_def sub64_def wrap64_id)
  have m: "max_go 0 (- context) = 0" "min_go 0 context = 0" "min_go 2 (2 + context) = 2"
    using assms by (simp_all add: max_go_def min_go_def)
  have "createSingleHunk [] [''a'', ''b''] [?e] context = Some [''@@ -1,0 +1,2 @@'', ''+a'', ''+b'']"
    using createSingleHunk_ok [OF _ ch, of "context"]
    by (simp add: w1 w2 w3 w4 m hunkHeader_def itoa_0 itoa_1 itoa_2 editLines_def slice_def)
  then show ?thesis
    by (simp add: generateHunks_def computeDiff_empty_ab createHunksFromEdits_def
        hunksLoop_single_change)
qed

theorem empty_against_two_lines_witness:
  "generateHunks [] [''a'', ''b''] 3 = Some [[''@@ -1,0 +1,2 @@'', ''+a'', ''+b'']]"
  using empty_against_two_lines [of 3] by simp

text \<open>
  C7. The tie-break of the backtracking. Let the outer loop be at a position \<open>(i, j)\<close> with
  \<open>i > 0\<close>, holding the list \<open>edits\<close>, where either \<open>j = 0\<close> (nothing of sequence 2 is left),
  or the lines \<open>lines1[i-1]\<close> and \<open>lines2[j-1]\<close> differ (no diagonal match) and
  \<open>dp[i-1][j] = dp[i][j-1]\<close>. Then this iteration emits a Delete that ends at \<open>i\<close> (it covers
  line \<open>i-1\<close>) and leaves \<open>j\<close> as it is: the loop state becomes \<open>(i', j, Delete # edits)\<close> with
  \<open>i' < i\<close>, and the list the loop returns from here is some \<open>pre\<close>, then that Delete, then
  \<open>edits\<close>. The Insert loop does not advance at such a position, so an Insert run never
  consumes a tied position. For \<^verbatim>\<open>computeDiff\<close> itself: whenever its loop (on the table it
  filled, from \<open>(n, m, [])\<close>) reaches such a state after some number \<open>k\<close> of iterations, the
  list it returns is \<open>pre\<close>, that Delete, then \<open>edits\<close>.
\<close>

theorem tie_break_prefers_delete:
  assumes "0 < i"
    and "j = 0 \<or> (lines1 ! (i - 1) \<noteq> lines2 ! (j - 1) \<and> dp ! (i - 1) ! j = dp ! i ! (j - 1))"
  shows "\<exists>i' pre. i' < i
     \<and> backtrack lines1 lines2 dp i j edits =
         pre @ \<lparr>Type = ''delete'', Start1 = int i', End1 = int i, Start2 = int j, End2 = int j\<rparr> # edits
     \<and> backtrack lines1 lines2 dp i j edits =
         backtrack lines1 lines2 dp i' j
           (\<lparr>Type = ''delete'', Start1 = int i', End1 = int i, Start2 = int j, End2 = int j\<rparr> # edits)
     \<and> backtrackStep lines1 lines2 dp (i, j, edits) =
         (i', j, \<lparr>Type = ''delete'', Start1 = int i', End1 = int i, Start2 = int j, End2 = int j\<rparr> # edits)
     \<and> insertRun dp i j = j
     \<and> (\<forall>k. dp = fillTable lines1 lines2 \<and>
            (backtrackStep lines1 lines2 dp ^^ k) (length lines1, length lines2, []) = (i, j, edits) \<longrightarrow>
          computeDiff lines1 lines2 =
            pre @ \<lparr>Type = ''delete'', Start1 = int i', End1 = int i, Start2 = int j, End2 = int j\<rparr> # edits)"
proof -
  let ?i = "deleteRun dp i j"
  let ?D = "\<lparr>Type = ''delete'', Start1 = int ?i, End1 = int i, Start2 = int j, End2 = int j\<rparr>"
  let ?pre = "backtrack lines1 lines2 dp ?i j []"
  from assms have no: "\<not> (i > 0 \<and> j > 0 \<and> lines1 ! (i - 1) = lines2 ! (j - 1))"
    and del: "i > 0 \<and> (j = 0 \<or> dp ! (i - 1) ! j \<ge> dp ! i ! (j - 1))" by auto
  from del have lt: "?i < i" by (auto intro: deleteRun_less)
  have b1: "backtrack lines1 lines2 dp i j edits = backtrack lines1 lines2 dp ?i j (?D # edits)"
    using backtrack_delete [OF no del] by simp
  have b2: "backtrack lines1 lines2 dp i j edits = ?pre @ ?D # edits"
    unfolding b1 by (rule backtrack_acc)
  have st: "backtrackStep lines1 lines2 dp (i, j, edits) = (?i, j, ?D # edits)"
    using no del by (simp add: backtrackStep_def Let_def)
  from assms have ins: "insertRun dp i j = j" by (intro insertRun_stop) auto
  have cd: "computeDiff lines1 lines2 = ?pre @ ?D # edits"
    if "dp = fillTable lines1 lines2 \<and>
        (backtrackStep lines1 lines2 dp ^^ k) (length lines1, length lines2, []) = (i, j, edits)" for k
  proof -
    from that have dp: "dp = fillTable lines1 lines2" by (rule conjunct1)
    from that have reach:
      "(backtrackStep lines1 lines2 dp ^^ k) (length lines1, length lines2, []) = (i, j, edits)"
      by (rule conjunct2)
    have "computeDiff lines1 lines2 = backtrackFrom lines1 lines2 dp (length lines1, length lines2, [])"
      by (simp add: dp computeDiff_def backtrackFrom_def)
    also have "\<dots> = backtrackFrom lines1 lines2 dp (i, j, edits)"
      using backtrack_iterate [of lines1 lines2 dp k "(length lines1, length lines2, [])"]
      unfolding reach by simp
    also have "\<dots> = ?pre @ ?D # edits" using b2 by (simp add: backtrackFrom_def)
    finally show ?thesis .
  qed
  from lt b1 b2 st ins cd show ?thesis by blast
qed

theorem tie_break_prefers_delete_witness:
  "(backtrackStep [''a'', ''b'', ''c''] [''a'', ''x'', ''c'']
       (fillTable [''a'', ''b'', ''c''] [''a'', ''x'', ''c'']) ^^ 1) (3, 3, []) =
     (2, 2, [\<lparr>Type = ''equal'', Start1 = 2, End1 = 3, Start2 = 2, End2 = 3\<rparr>])
   \<and> fillTable [''a'', ''b'', ''c''] [''a'', ''x'', ''c''] ! 1 ! 2
       = fillTable [''a'', ''b'', ''c''] [''a'', ''x'', ''c''] ! 2 ! 1
   \<and> (\<exists>i' pre. i' < 2 \<and>
        computeDiff [''a'', ''b'', ''c''] [''a'', ''x'', ''c''] =
          pre @ [\<lparr>Type = ''delete'', Start1 = int i', End1 = 2, Start2 = 2, End2 = 2\<rparr>,
                 \<lparr>Type = ''equal'', Start1 = 2, End1 = 3, Start2 = 2, End2 = 3\<rparr>])
   \<and> insertRun (fillTable [''a'', ''b'', ''c''] [''a'', ''x'', ''c'']) 2 2 = 2"
proof -
  let ?dp = "fillTable [''a'', ''b'', ''c''] [''a'', ''x'', ''c'']"
  let ?E = "\<lparr>Type = ''equal'', Start1 = 2, End1 = 3, Start2 = 2, End2 = 3\<rparr>"
  have reach3: "(backtrackStep [''a'', ''b'', ''c''] [''a'', ''x'', ''c''] ?dp ^^ 1) (3, 3, []) = (2, 2, [?E])"
    by code_simp
  have len: "length [''a'', ''b'', ''c''] = 3" "length [''a'', ''x'', ''c''] = 3" by simp_all
  have reach: "(backtrackStep [''a'', ''b'', ''c''] [''a'', ''x'', ''c''] ?dp ^^ 1)
      (length [''a'', ''b'', ''c''], length [''a'', ''x'', ''c''], []) = (2, 2, [?E])"
    unfolding len by (rule reach3)
  have tie: "?dp ! (2 - 1) ! 2 = ?dp ! 2 ! (2 - 1)"
    by code_simp
  have ne: "[''a'', ''b'', ''c''] ! (2 - 1) \<noteq> [''a'', ''x'', ''c''] ! (2 - 1)" by simp
  have pos: "(0::nat) < 2" by simp
  from ne tie have hyp: "(2::nat) = 0 \<or> ([''a'', ''b'', ''c''] ! (2 - 1) \<noteq> [''a'', ''x'', ''c''] ! (2 - 1) \<and>
      ?dp ! (2 - 1) ! 2 = ?dp ! 2 ! (2 - 1))"
    by blast
  from tie_break_prefers_delete [OF pos hyp, of "[?E]"] obtain i' pre where
    lt: "i' < 2"
    and ins: "insertRun ?dp 2 2 = 2"
    and cd: "\<forall>k. ?dp = ?dp \<and>
            (backtrackStep [''a'', ''b'', ''c''] [''a'', ''x'', ''c''] ?dp ^^ k)
              (length [''a'', ''b'', ''c''], length [''a'', ''x'', ''c''], []) = (2, 2, [?E]) \<longrightarrow>
          computeDiff [''a'', ''b'', ''c''] [''a'', ''x'', ''c''] =
            pre @ \<lparr>Type = ''delete'', Start1 = int i', End1 = int 2, Start2 = int 2, End2 = int 2\<rparr> # [?E]"
    by blast
  from cd reach have "computeDiff [''a'', ''b'', ''c''] [''a'', ''x'', ''c''] =
            pre @ \<lparr>Type = ''delete'', Start1 = int i', End1 = int 2, Start2 = int 2, End2 = int 2\<rparr> # [?E]"
    by blast
  with lt have "\<exists>i' pre. i' < 2 \<and>
        computeDiff [''a'', ''b'', ''c''] [''a'', ''x'', ''c''] =
          pre @ [\<lparr>Type = ''delete'', Start1 = int i', End1 = 2, Start2 = 2, End2 = 2\<rparr>, ?E]"
    by auto
  moreover note reach3
  moreover from tie have "?dp ! 1 ! 2 = ?dp ! 2 ! 1" by simp
  ultimately show ?thesis using ins by blast
qed

text \<open>
  C8. For a non-empty sequence, the diff of the sequence with itself is the single Equal
  operation over \<open>[0, len)\<close> on both sides, and the hunk assembler returns no hunk for it,
  whatever the context count (so in particular for every context \<open>\<ge> 0\<close>).
\<close>

theorem identical_inputs:
  "lines \<noteq> [] \<Longrightarrow>
     computeDiff lines lines =
       [\<lparr>Type = ''equal'', Start1 = 0, End1 = int (length lines),
         Start2 = 0, End2 = int (length lines)\<rparr>]
     \<and> (\<forall>context. createHunksFromEdits lines lines (computeDiff lines lines) context = Some [])"
  by (simp add: computeDiff_same hunksLoop_single_equal)

theorem identical_inputs_witness:
  "computeDiff [''a'', ''b'', ''c'', ''d'', ''e''] [''a'', ''b'', ''c'', ''d'', ''e''] =
     [\<lparr>Type = ''equal'', Start1 = 0, End1 = 5, Start2 = 0, End2 = 5\<rparr>]
   \<and> createHunksFromEdits [''a'', ''b'', ''c'', ''d'', ''e''] [''a'', ''b'', ''c'', ''d'', ''e'']
       (computeDiff [''a'', ''b'', ''c'', ''d'', ''e''] [''a'', ''b'', ''c'', ''d'', ''e'']) 3 = Some []"
proof -
  have ne: "[''a'', ''b'', ''c'', ''d'', ''e''] \<noteq> []" by simp
  note r = identical_inputs [OF ne]
  from r have "computeDiff [''a'', ''b'', ''c'', ''d'', ''e''] [''a'', ''b'', ''c'', ''d'', ''e''] =
     [\<lparr>Type = ''equal'', Start1 = 0, End1 = 5, Start2 = 0, End2 = 5\<rparr>]" by simp
  moreover from r have "createHunksFromEdits [''a'', ''b'', ''c'', ''d'', ''e''] [''a'', ''b'', ''c'', ''d'', ''e'']
       (computeDiff [''a'', ''b'', ''c'', ''d'', ''e''] [''a'', ''b'', ''c'', ''d'', ''e'']) 3 = Some []" by blast
  ultimately show ?thesis by blast
qed

text \<open>
  C9. Where \<open>context * 2\<close> overflows Go's 64-bit \<open>int\<close>, the grouping does not follow the
  rule: with context \<open>2^62\<close> the product wraps around to \<open>-2^63\<close>, so every Equal run ends
  the hunk. For \<open>["a","1","b"]\<close> against \<open>["c","1","d"]\<close> the hunk that starts at operation 0
  ends at operation 2, an Equal run of one line (far shorter than \<open>2 * context\<close>), and two
  hunks are emitted.
\<close>

theorem hunk_grouping_overflow:
  "Type (computeDiff [''a'', ''1'', ''b''] [''c'', ''1'', ''d''] ! 2) = ''equal''
   \<and> End1 (computeDiff [''a'', ''1'', ''b''] [''c'', ''1'', ''d''] ! 2)
       - Start1 (computeDiff [''a'', ''1'', ''b''] [''c'', ''1'', ''d''] ! 2)
       < 2 * 4611686018427387904
   \<and> skipEqual (computeDiff [''a'', ''1'', ''b''] [''c'', ''1'', ''d'']) 0 = 0
   \<and> extendHunk (computeDiff [''a'', ''1'', ''b''] [''c'', ''1'', ''d'']) 4611686018427387904 0 = 2
   \<and> generateHunks [''a'', ''1'', ''b''] [''c'', ''1'', ''d''] 4611686018427387904 =
       Some [[''@@ -1,3 +1,3 @@'', ''+c'', ''-a'', '' 1'', '' b''],
             [''@@ -1,3 +1,3 @@'', '' a'', '' 1'', ''+d'', ''-b'']]"
  by code_simp

text \<open>
  C9, as amended. Let \<open>-2^62 \<le> context < 2^62\<close> (so that \<open>context * 2\<close> does not overflow)
  and let no edit's \<open>End1 - Start1\<close> overflow (true of every edit list of \<^verbatim>\<open>computeDiff\<close>).
  One round of the loop of \<^verbatim>\<open>createHunksFromEdits\<close> from index \<open>i\<close> then does this: it
  skips Equal operations up to \<open>hunkStart\<close>; if none is left it returns the hunks made so
  far; otherwise the operation at \<open>hunkStart\<close> is the first non-Equal one, the hunk takes
  the operations \<open>hunkStart .. hunkEnd - 1\<close>, each of them a non-Equal operation or an Equal
  run shorter than \<open>2 * context\<close>, and it ends exactly at the end of the list or at an Equal
  run of length at least \<open>2 * context\<close>; that group is what \<^verbatim>\<open>createSingleHunk\<close> renders,
  and the loop goes on from \<open>hunkEnd\<close>. In particular (the witness) two changes separated
  by an Equal run of 10 lines, with context 2, give two hunks.
\<close>

theorem hunk_grouping_rule:
  fixes edits :: "Edit list"
  assumes "- (2 ^ 62) \<le> context" "context < 2 ^ 62"
    and "\<forall>e \<in> set edits. - (2 ^ 63) \<le> End1 e - Start1 e \<and> End1 e - Start1 e < 2 ^ 63"
    and "i < length edits"
  defines "hunkStart \<equiv> skipEqual edits i"
    and "hunkEnd \<equiv> extendHunk edits context (skipEqual edits i)"
  shows "(\<forall>k. i \<le> k \<and> k < hunkStart \<longrightarrow> Type (edits ! k) = ''equal'')
    \<and> (length edits \<le> hunkStart \<longrightarrow>
          hunksLoop lines1 lines2 edits context i hunks = Some hunks)
    \<and> (hunkStart < length edits \<longrightarrow>
          Type (edits ! hunkStart) \<noteq> ''equal''
        \<and> hunkStart < hunkEnd \<and> hunkEnd \<le> length edits
        \<and> (\<forall>k. hunkStart \<le> k \<and> k < hunkEnd \<longrightarrow>
              Type (edits ! k) \<noteq> ''equal'' \<or> End1 (edits ! k) - Start1 (edits ! k) < 2 * context)
        \<and> (hunkEnd < length edits \<longrightarrow>
              Type (edits ! hunkEnd) = ''equal'' \<and>
              2 * context \<le> End1 (edits ! hunkEnd) - Start1 (edits ! hunkEnd))
        \<and> hunksLoop lines1 lines2 edits context i hunks =
            (case createSingleHunk lines1 lines2
                    (take (hunkEnd - hunkStart) (drop hunkStart edits)) context of
               None \<Rightarrow> None
             | Some hunk \<Rightarrow>
                 hunksLoop lines1 lines2 edits context hunkEnd
                   (if length hunk > 0 then hunks @ [hunk] else hunks)))"
proof -
  from assms(4) have le: "i \<le> length edits" by simp
  from skipEqual_spec [OF le] have s: "hunkStart \<le> length edits"
    "\<forall>k. i \<le> k \<and> k < hunkStart \<longrightarrow> Type (edits ! k) = ''equal''"
    "hunkStart < length edits \<longrightarrow> Type (edits ! hunkStart) \<noteq> ''equal''"
    unfolding hunkStart_def by blast+
  have plain: "absorbed context (edits ! k) \<longleftrightarrow>
      Type (edits ! k) \<noteq> ''equal'' \<or> End1 (edits ! k) - Start1 (edits ! k) < 2 * context"
    if "k < length edits" for k
  proof -
    from that assms(3) have "- (2 ^ 63) \<le> End1 (edits ! k) - Start1 (edits ! k)"
      "End1 (edits ! k) - Start1 (edits ! k) < 2 ^ 63" by simp_all
    from absorbed_plain [OF assms(1,2) this] show ?thesis .
  qed
  from extendHunk_spec [OF s(1)] have x: "hunkStart \<le> hunkEnd" "hunkEnd \<le> length edits"
    "\<forall>k. hunkStart \<le> k \<and> k < hunkEnd \<longrightarrow> absorbed context (edits ! k)"
    "hunkEnd < length edits \<longrightarrow> \<not> absorbed context (edits ! hunkEnd)"
    unfolding hunkStart_def hunkEnd_def by blast+
  have p2: "length edits \<le> hunkStart \<longrightarrow>
          hunksLoop lines1 lines2 edits context i hunks = Some hunks"
    using assms(4) unfolding hunkStart_def by (simp add: hunksLoop_skip_end)
  have p3: "Type (edits ! k) \<noteq> ''equal'' \<or> End1 (edits ! k) - Start1 (edits ! k) < 2 * context"
    if "hunkStart \<le> k \<and> k < hunkEnd" for k
  proof -
    from that x(2) have "k < length edits" by simp
    from plain [OF this] x(3) that show ?thesis by blast
  qed
  have p4: "hunkEnd < length edits \<longrightarrow>
      Type (edits ! hunkEnd) = ''equal'' \<and>
      2 * context \<le> End1 (edits ! hunkEnd) - Start1 (edits ! hunkEnd)"
  proof
    assume lt: "hunkEnd < length edits"
    with x(4) plain [OF lt] show "Type (edits ! hunkEnd) = ''equal'' \<and>
      2 * context \<le> End1 (edits ! hunkEnd) - Start1 (edits ! hunkEnd)" by auto
  qed
  have p5: "hunkStart < length edits \<longrightarrow> hunkStart < hunkEnd"
  proof
    assume lt: "hunkStart < length edits"
    with s(3) have "absorbed context (edits ! hunkStart)" by (simp add: absorbed_def)
    with lt show "hunkStart < hunkEnd" unfolding hunkEnd_def hunkStart_def
      by (intro extendHunk_greater)
  qed
  have p6: "hunkStart < length edits \<longrightarrow>
      hunksLoop lines1 lines2 edits context i hunks =
            (case createSingleHunk lines1 lines2
                    (take (hunkEnd - hunkStart) (drop hunkStart edits)) context of
               None \<Rightarrow> None
             | Some hunk \<Rightarrow>
                 hunksLoop lines1 lines2 edits context hunkEnd
                   (if length hunk > 0 then hunks @ [hunk] else hunks))"
    using assms(4) hunksLoop_step [of i edits lines1 lines2 "context" hunks]
    unfolding hunkStart_def hunkEnd_def by blast
  from s(2,3) p2 p3 p4 p5 p6 x(2) show ?thesis by blast
qed

theorem hunk_grouping_rule_witness:
  "computeDiff
     [''x'', ''u1'', ''u2'', ''u3'', ''u4'', ''u5'', ''u6'', ''u7'', ''u8'', ''u9'', ''u10'', ''y'']
     [''X'', ''u1'', ''u2'', ''u3'', ''u4'', ''u5'', ''u6'', ''u7'', ''u8'', ''u9'', ''u10'', ''Y''] =
     [\<lparr>Type = ''insert'', Start1 = 0, End1 = 0, Start2 = 0, End2 = 1\<rparr>,
      \<lparr>Type = ''delete'', Start1 = 0, End1 = 1, Start2 = 1, End2 = 1\<rparr>,
      \<lparr>Type = ''equal'', Start1 = 1, End1 = 11, Start2 = 1, End2 = 11\<rparr>,
      \<lparr>Type = ''insert'', Start1 = 11, End1 = 11, Start2 = 11, End2 = 12\<rparr>,
      \<lparr>Type = ''delete'', Start1 = 11, End1 = 12, Start2 = 12, End2 = 12\<rparr>]
   \<and> Type (computeDiff
     [''x'', ''u1'', ''u2'', ''u3'', ''u4'', ''u5'', ''u6'', ''u7'', ''u8'', ''u9'', ''u10'', ''y'']
     [''X'', ''u1'', ''u2'', ''u3'', ''u4'', ''u5'', ''u6'', ''u7'', ''u8'', ''u9'', ''u10'', ''Y''] ! 2) = ''equal''
   \<and> 2 * 2 \<le> End1 (computeDiff
     [''x'', ''u1'', ''u2'', ''u3'', ''u4'', ''u5'', ''u6'', ''u7'', ''u8'', ''u9'', ''u10'', ''y'']
     [''X'', ''u1'', ''u2'', ''u3'', ''u4'', ''u5'', ''u6'', ''u7'', ''u8'', ''u9'', ''u10'', ''Y''] ! 2)
     - Start1 (computeDiff
     [''x'', ''u1'', ''u2'', ''u3'', ''u4'', ''u5'', ''u6'', ''u7'', ''u8'', ''u9'', ''u10'', ''y'']
     [''X'', ''u1'', ''u2'', ''u3'', ''u4'', ''u5'', ''u6'', ''u7'', ''u8'', ''u9'', ''u10'', ''Y''] ! 2)
   \<and> generateHunks
     [''x'', ''u1'', ''u2'', ''u3'', ''u4'', ''u5'', ''u6'', ''u7'', ''u8'', ''u9'', ''u10'', ''y'']
     [''X'', ''u1'', ''u2'', ''u3'', ''u4'', ''u5'', ''u6'', ''u7'', ''u8'', ''u9'', ''u10'', ''Y''] 2 =
     Some [[''@@ -1,3 +1,3 @@'', ''+X'', ''-x'', '' u1'', '' u2''],
           [''@@ -10,3 +10,3 @@'', '' u9'', '' u10'', ''+Y'', ''-y'']]"
proof -
  let ?E = "computeDiff
     [''x'', ''u1'', ''u2'', ''u3'', ''u4'', ''u5'', ''u6'', ''u7'', ''u8'', ''u9'', ''u10'', ''y'']
     [''X'', ''u1'', ''u2'', ''u3'', ''u4'', ''u5'', ''u6'', ''u7'', ''u8'', ''u9'', ''u10'', ''Y'']"
  have ev: "?E =
     [\<lparr>Type = ''insert'', Start1 = 0, End1 = 0, Start2 = 0, End2 = 1\<rparr>,
      \<lparr>Type = ''delete'', Start1 = 0, End1 = 1, Start2 = 1, End2 = 1\<rparr>,
      \<lparr>Type = ''equal'', Start1 = 1, End1 = 11, Start2 = 1, End2 = 11\<rparr>,
      \<lparr>Type = ''insert'', Start1 = 11, End1 = 11, Start2 = 11, End2 = 12\<rparr>,
      \<lparr>Type = ''delete'', Start1 = 11, End1 = 12, Start2 = 12, End2 = 12\<rparr>]"
    by code_simp
  have hunks: "generateHunks
     [''x'', ''u1'', ''u2'', ''u3'', ''u4'', ''u5'', ''u6'', ''u7'', ''u8'', ''u9'', ''u10'', ''y'']
     [''X'', ''u1'', ''u2'', ''u3'', ''u4'', ''u5'', ''u6'', ''u7'', ''u8'', ''u9'', ''u10'', ''Y''] 2 =
     Some [[''@@ -1,3 +1,3 @@'', ''+X'', ''-x'', '' u1'', '' u2''],
           [''@@ -10,3 +10,3 @@'', '' u9'', '' u10'', ''+Y'', ''-y'']]"
    by code_simp
  have hs: "skipEqual ?E 0 = 0" by code_simp
  have he: "extendHunk ?E 2 0 = 2" by code_simp
  have c1: "- (2 ^ 62) \<le> (2::int)" and c2: "(2::int) < 2 ^ 62" by simp_all
  have bnd: "\<forall>e \<in> set ?E. - (2 ^ 63) \<le> End1 e - Start1 e \<and> End1 e - Start1 e < 2 ^ 63"
    unfolding ev by simp
  have pos: "0 < length ?E" unfolding ev by simp
  have lt: "skipEqual ?E 0 < length ?E" unfolding hs by (rule pos)
  have lt2: "extendHunk ?E 2 (skipEqual ?E 0) < length ?E" unfolding hs he unfolding ev by simp
  note r = hunk_grouping_rule [OF c1 c2 bnd pos]
  note t = r [THEN conjunct2, THEN conjunct2, THEN mp, OF lt]
  note f = t [THEN conjunct2, THEN conjunct2, THEN conjunct2, THEN conjunct2, THEN conjunct1,
      THEN mp, OF lt2]
  from f have "Type (?E ! 2) = ''equal'' \<and> 2 * 2 \<le> End1 (?E ! 2) - Start1 (?E ! 2)"
    unfolding hs he .
  with ev hunks show ?thesis by blast
qed



end
